theory Spec2Isabelle
  imports Main "HOL-Library.Sublist" "HOL-Library.AList"
    "HOL-Library.Monad_Syntax"
begin


section \<open>Python strings\<close>

text \<open>
  A string is the list of its code points (the numbers that \<open>ord\<close> gives for its
  characters), so that every character of Unicode is at hand.
  \<open>str\<close> gives the string of a text written in ASCII.
\<close>

type_synonym pystr = "int list"

definition str :: "string \<Rightarrow> pystr" where
  "str s = map of_char s"

text \<open>The characters for which \<open>str.isspace\<close> holds; \<open>str.strip\<close> removes them at both ends.\<close>

definition is_space :: "int \<Rightarrow> bool" where
  "is_space c =
     (c \<in> {0x09, 0x0A, 0x0B, 0x0C, 0x0D, 0x1C, 0x1D, 0x1E, 0x1F, 0x20, 0x85, 0xA0, 0x1680,
            0x2000, 0x2001, 0x2002, 0x2003, 0x2004, 0x2005, 0x2006, 0x2007, 0x2008, 0x2009,
            0x200A, 0x2028, 0x2029, 0x202F, 0x205F, 0x3000})"

definition py_strip :: "pystr \<Rightarrow> pystr" where
  "py_strip s = rev (dropWhile is_space (rev (dropWhile is_space s)))"

text \<open>
  \<open>str.lower\<close>, character by character. Outside ASCII the characters that it changes lie
  in the ranges of \<open>lower_ranges\<close>: an entry \<open>(lo, hi, step, target)\<close> sends \<open>lo\<close> to
  \<open>target\<close>, \<open>lo + step\<close> to \<open>target + step\<close> and so on up to \<open>hi\<close> (Unicode 14). One
  character, U+0130, becomes two. One rule of \<open>str.lower\<close> looks at the neighbours of a
  character and is left out: a capital sigma at the end of a word becomes U+03C2, here
  always U+03C3. The program compares the result with the ASCII text \<open>heading \<close> only, and
  neither sigma is an ASCII character.
\<close>

definition lower_ranges :: "(int \<times> int \<times> int \<times> int) list" where
  "lower_ranges =
     [(0xC0, 0xD6, 1, 0xE0), (0xD8, 0xDE, 1, 0xF8), (0x100, 0x12E, 2, 0x101),
      (0x132, 0x136, 2, 0x133), (0x139, 0x147, 2, 0x13A), (0x14A, 0x176, 2, 0x14B),
      (0x178, 0x178, 1, 0xFF), (0x179, 0x17D, 2, 0x17A), (0x181, 0x181, 1, 0x253),
      (0x182, 0x184, 2, 0x183), (0x186, 0x186, 1, 0x254), (0x187, 0x187, 1, 0x188),
      (0x189, 0x18A, 1, 0x256), (0x18B, 0x18B, 1, 0x18C), (0x18E, 0x18E, 1, 0x1DD),
      (0x18F, 0x18F, 1, 0x259), (0x190, 0x190, 1, 0x25B), (0x191, 0x191, 1, 0x192),
      (0x193, 0x193, 1, 0x260), (0x194, 0x194, 1, 0x263), (0x196, 0x196, 1, 0x269),
      (0x197, 0x197, 1, 0x268), (0x198, 0x198, 1, 0x199), (0x19C, 0x19C, 1, 0x26F),
      (0x19D, 0x19D, 1, 0x272), (0x19F, 0x19F, 1, 0x275), (0x1A0, 0x1A4, 2, 0x1A1),
      (0x1A6, 0x1A6, 1, 0x280), (0x1A7, 0x1A7, 1, 0x1A8), (0x1A9, 0x1A9, 1, 0x283),
      (0x1AC, 0x1AC, 1, 0x1AD), (0x1AE, 0x1AE, 1, 0x288), (0x1AF, 0x1AF, 1, 0x1B0),
      (0x1B1, 0x1B2, 1, 0x28A), (0x1B3, 0x1B5, 2, 0x1B4), (0x1B7, 0x1B7, 1, 0x292),
      (0x1B8, 0x1B8, 1, 0x1B9), (0x1BC, 0x1BC, 1, 0x1BD), (0x1C4, 0x1C4, 1, 0x1C6),
      (0x1C5, 0x1C5, 1, 0x1C6), (0x1C7, 0x1C7, 1, 0x1C9), (0x1C8, 0x1C8, 1, 0x1C9),
      (0x1CA, 0x1CA, 1, 0x1CC), (0x1CB, 0x1DB, 2, 0x1CC), (0x1DE, 0x1EE, 2, 0x1DF),
      (0x1F1, 0x1F1, 1, 0x1F3), (0x1F2, 0x1F4, 2, 0x1F3), (0x1F6, 0x1F6, 1, 0x195),
      (0x1F7, 0x1F7, 1, 0x1BF), (0x1F8, 0x21E, 2, 0x1F9), (0x220, 0x220, 1, 0x19E),
      (0x222, 0x232, 2, 0x223), (0x23A, 0x23A, 1, 0x2C65), (0x23B, 0x23B, 1, 0x23C),
      (0x23D, 0x23D, 1, 0x19A), (0x23E, 0x23E, 1, 0x2C66), (0x241, 0x241, 1, 0x242),
      (0x243, 0x243, 1, 0x180), (0x244, 0x244, 1, 0x289), (0x245, 0x245, 1, 0x28C),
      (0x246, 0x24E, 2, 0x247), (0x370, 0x372, 2, 0x371), (0x376, 0x376, 1, 0x377),
      (0x37F, 0x37F, 1, 0x3F3), (0x386, 0x386, 1, 0x3AC), (0x388, 0x38A, 1, 0x3AD),
      (0x38C, 0x38C, 1, 0x3CC), (0x38E, 0x38F, 1, 0x3CD), (0x391, 0x3A1, 1, 0x3B1),
      (0x3A3, 0x3AB, 1, 0x3C3), (0x3CF, 0x3CF, 1, 0x3D7), (0x3D8, 0x3EE, 2, 0x3D9),
      (0x3F4, 0x3F4, 1, 0x3B8), (0x3F7, 0x3F7, 1, 0x3F8), (0x3F9, 0x3F9, 1, 0x3F2),
      (0x3FA, 0x3FA, 1, 0x3FB), (0x3FD, 0x3FF, 1, 0x37B), (0x400, 0x40F, 1, 0x450),
      (0x410, 0x42F, 1, 0x430), (0x460, 0x480, 2, 0x461), (0x48A, 0x4BE, 2, 0x48B),
      (0x4C0, 0x4C0, 1, 0x4CF), (0x4C1, 0x4CD, 2, 0x4C2), (0x4D0, 0x52E, 2, 0x4D1),
      (0x531, 0x556, 1, 0x561), (0x10A0, 0x10C5, 1, 0x2D00), (0x10C7, 0x10C7, 1, 0x2D27),
      (0x10CD, 0x10CD, 1, 0x2D2D), (0x13A0, 0x13EF, 1, 0xAB70),
      (0x13F0, 0x13F5, 1, 0x13F8), (0x1C90, 0x1CBA, 1, 0x10D0),
      (0x1CBD, 0x1CBF, 1, 0x10FD), (0x1E00, 0x1E94, 2, 0x1E01), (0x1E9E, 0x1E9E, 1, 0xDF),
      (0x1EA0, 0x1EFE, 2, 0x1EA1), (0x1F08, 0x1F0F, 1, 0x1F00),
      (0x1F18, 0x1F1D, 1, 0x1F10), (0x1F28, 0x1F2F, 1, 0x1F20),
      (0x1F38, 0x1F3F, 1, 0x1F30), (0x1F48, 0x1F4D, 1, 0x1F40),
      (0x1F59, 0x1F5F, 2, 0x1F51), (0x1F68, 0x1F6F, 1, 0x1F60),
      (0x1F88, 0x1F8F, 1, 0x1F80), (0x1F98, 0x1F9F, 1, 0x1F90),
      (0x1FA8, 0x1FAF, 1, 0x1FA0), (0x1FB8, 0x1FB9, 1, 0x1FB0),
      (0x1FBA, 0x1FBB, 1, 0x1F70), (0x1FBC, 0x1FBC, 1, 0x1FB3),
      (0x1FC8, 0x1FCB, 1, 0x1F72), (0x1FCC, 0x1FCC, 1, 0x1FC3),
      (0x1FD8, 0x1FD9, 1, 0x1FD0), (0x1FDA, 0x1FDB, 1, 0x1F76),
      (0x1FE8, 0x1FE9, 1, 0x1FE0), (0x1FEA, 0x1FEB, 1, 0x1F7A),
      (0x1FEC, 0x1FEC, 1, 0x1FE5), (0x1FF8, 0x1FF9, 1, 0x1F78),
      (0x1FFA, 0x1FFB, 1, 0x1F7C), (0x1FFC, 0x1FFC, 1, 0x1FF3), (0x2126, 0x2126, 1, 0x3C9),
      (0x212A, 0x212A, 1, 0x6B), (0x212B, 0x212B, 1, 0xE5), (0x2132, 0x2132, 1, 0x214E),
      (0x2160, 0x216F, 1, 0x2170), (0x2183, 0x2183, 1, 0x2184),
      (0x24B6, 0x24CF, 1, 0x24D0), (0x2C00, 0x2C2F, 1, 0x2C30),
      (0x2C60, 0x2C60, 1, 0x2C61), (0x2C62, 0x2C62, 1, 0x26B), (0x2C63, 0x2C63, 1, 0x1D7D),
      (0x2C64, 0x2C64, 1, 0x27D), (0x2C67, 0x2C6B, 2, 0x2C68), (0x2C6D, 0x2C6D, 1, 0x251),
      (0x2C6E, 0x2C6E, 1, 0x271), (0x2C6F, 0x2C6F, 1, 0x250), (0x2C70, 0x2C70, 1, 0x252),
      (0x2C72, 0x2C72, 1, 0x2C73), (0x2C75, 0x2C75, 1, 0x2C76), (0x2C7E, 0x2C7F, 1, 0x23F),
      (0x2C80, 0x2CE2, 2, 0x2C81), (0x2CEB, 0x2CED, 2, 0x2CEC),
      (0x2CF2, 0x2CF2, 1, 0x2CF3), (0xA640, 0xA66C, 2, 0xA641),
      (0xA680, 0xA69A, 2, 0xA681), (0xA722, 0xA72E, 2, 0xA723),
      (0xA732, 0xA76E, 2, 0xA733), (0xA779, 0xA77B, 2, 0xA77A),
      (0xA77D, 0xA77D, 1, 0x1D79), (0xA77E, 0xA786, 2, 0xA77F),
      (0xA78B, 0xA78B, 1, 0xA78C), (0xA78D, 0xA78D, 1, 0x265), (0xA790, 0xA792, 2, 0xA791),
      (0xA796, 0xA7A8, 2, 0xA797), (0xA7AA, 0xA7AA, 1, 0x266), (0xA7AB, 0xA7AB, 1, 0x25C),
      (0xA7AC, 0xA7AC, 1, 0x261), (0xA7AD, 0xA7AD, 1, 0x26C), (0xA7AE, 0xA7AE, 1, 0x26A),
      (0xA7B0, 0xA7B0, 1, 0x29E), (0xA7B1, 0xA7B1, 1, 0x287), (0xA7B2, 0xA7B2, 1, 0x29D),
      (0xA7B3, 0xA7B3, 1, 0xAB53), (0xA7B4, 0xA7C2, 2, 0xA7B5),
      (0xA7C4, 0xA7C4, 1, 0xA794), (0xA7C5, 0xA7C5, 1, 0x282), (0xA7C6, 0xA7C6, 1, 0x1D8E),
      (0xA7C7, 0xA7C9, 2, 0xA7C8), (0xA7D0, 0xA7D0, 1, 0xA7D1),
      (0xA7D6, 0xA7D8, 2, 0xA7D7), (0xA7F5, 0xA7F5, 1, 0xA7F6),
      (0xFF21, 0xFF3A, 1, 0xFF41), (0x10400, 0x10427, 1, 0x10428),
      (0x104B0, 0x104D3, 1, 0x104D8), (0x10570, 0x1057A, 1, 0x10597),
      (0x1057C, 0x1058A, 1, 0x105A3), (0x1058C, 0x10592, 1, 0x105B3),
      (0x10594, 0x10595, 1, 0x105BB), (0x10C80, 0x10CB2, 1, 0x10CC0),
      (0x118A0, 0x118BF, 1, 0x118C0), (0x16E40, 0x16E5F, 1, 0x16E60),
      (0x1E900, 0x1E921, 1, 0x1E922)]"

definition py_lower_char :: "int \<Rightarrow> pystr" where
  "py_lower_char c =
     (if c < 0x80 then (if 0x41 \<le> c \<and> c \<le> 0x5A then [c + 0x20] else [c])
      else if c = 0x130 then [0x69, 0x307]
      else (case find (\<lambda>(lo, hi, step, target).
                         lo \<le> c \<and> c \<le> hi \<and> (c - lo) mod step = 0) lower_ranges of
              Some (lo, hi, step, target) \<Rightarrow> [target + (c - lo)]
            | None \<Rightarrow> [c]))"

definition py_lower :: "pystr \<Rightarrow> pystr" where
  "py_lower s = concat (map py_lower_char s)"

text \<open>\<open>s.split(sep)\<close> for a one-character separator: never empty, empty fields kept.\<close>

fun py_split :: "int \<Rightarrow> pystr \<Rightarrow> pystr list" where
  "py_split sep [] = [[]]"
| "py_split sep (c # cs) =
     (if c = sep then [] # py_split sep cs
      else (case py_split sep cs of [] \<Rightarrow> [[c]] | t # ts \<Rightarrow> (c # t) # ts))"

text \<open>
  The decimal digits of Unicode 14 come in runs of ten, \<open>0\<close> to \<open>9\<close>; \<open>decimal_zeros\<close> lists
  the first character of every run.
\<close>

definition decimal_zeros :: "int list" where
  "decimal_zeros =
     [0x30, 0x660, 0x6F0, 0x7C0, 0x966, 0x9E6, 0xA66, 0xAE6, 0xB66, 0xBE6, 0xC66, 0xCE6,
      0xD66, 0xDE6, 0xE50, 0xED0, 0xF20, 0x1040, 0x1090, 0x17E0, 0x1810, 0x1946, 0x19D0,
      0x1A80, 0x1A90, 0x1B50, 0x1BB0, 0x1C40, 0x1C50, 0xA620, 0xA8D0, 0xA900, 0xA9D0,
      0xA9F0, 0xAA50, 0xABF0, 0xFF10, 0x104A0, 0x10D30, 0x11066, 0x110F0, 0x11136, 0x111D0,
      0x112F0, 0x11450, 0x114D0, 0x11650, 0x116C0, 0x11730, 0x118E0, 0x11950, 0x11C50,
      0x11D50, 0x11DA0, 0x16A60, 0x16AC0, 0x16B50, 0x1D7CE, 0x1D7D8, 0x1D7E2, 0x1D7EC,
      0x1D7F6, 0x1E140, 0x1E2F0, 0x1E950, 0x1FBF0]"

definition digit_val :: "int \<Rightarrow> nat option" where
  "digit_val c =
     (case find (\<lambda>z. z \<le> c \<and> c < z + 10) decimal_zeros of
        Some z \<Rightarrow> Some (nat (c - z))
      | None \<Rightarrow> None)"

text \<open>The digits after the first one, single underscores allowed between two digits.\<close>

fun digits_val :: "nat \<Rightarrow> pystr \<Rightarrow> nat option" where
  "digits_val acc [] = Some acc"
| "digits_val acc (c # cs) =
     (if c = 0x5F then
        (case cs of
           [] \<Rightarrow> None
         | d # ds \<Rightarrow> (case digit_val d of
                        None \<Rightarrow> None
                      | Some v \<Rightarrow> digits_val (acc * 10 + v) ds))
      else (case digit_val c of
              None \<Rightarrow> None
            | Some v \<Rightarrow> digits_val (acc * 10 + v) cs))"

definition unsigned_val :: "pystr \<Rightarrow> nat option" where
  "unsigned_val s =
     (case s of
        [] \<Rightarrow> None
      | d # ds \<Rightarrow> (case digit_val d of None \<Rightarrow> None | Some v \<Rightarrow> digits_val v ds))"

text \<open>
  \<open>int(s)\<close>; \<open>None\<close> stands for the \<open>ValueError\<close>. The white space that \<open>int\<close> passes over
  at both ends is that of \<open>str.strip\<close> without the four separators U+001C to U+001F. Then
  come an optional sign and the digits. A text of more than \<open>max_str_digits\<close> digits is
  refused (the limit that the interpreter starts with, underscores not counted).
\<close>

definition is_int_space :: "int \<Rightarrow> bool" where
  "is_int_space c = (is_space c \<and> \<not> (0x1C \<le> c \<and> c \<le> 0x1F))"

definition int_strip :: "pystr \<Rightarrow> pystr" where
  "int_strip s = rev (dropWhile is_int_space (rev (dropWhile is_int_space s)))"

definition max_str_digits :: nat where
  "max_str_digits = 4300"

definition count_digits :: "pystr \<Rightarrow> nat" where
  "count_digits s = length (filter (\<lambda>c. digit_val c \<noteq> None) s)"

definition py_int :: "pystr \<Rightarrow> int option" where
  "py_int s =
     (case int_strip s of
        [] \<Rightarrow> None
      | c # cs \<Rightarrow>
          (let digits = (if c = 0x2D \<or> c = 0x2B then cs else c # cs) in
           if max_str_digits < count_digits digits then None
           else if c = 0x2D then map_option (\<lambda>n. - int n) (unsigned_val digits)
           else map_option int (unsigned_val digits)))"

section \<open>Heading styles\<close>

text \<open>
  A paragraph of the document library, as far as the program reads it: the name of its
  style (\<open>None\<close> when the paragraph has no style or the style has no name) and its text.
\<close>

record docx_paragraph =
  style_name :: "pystr option"
  para_text :: pystr

text \<open>
  \<open>is_heading_style(paragraph, max_level)\<close>. The result \<open>None\<close> is the pair
  \<open>(None, None)\<close> of the source; the \<open>ValueError\<close> of \<open>int\<close> is caught there and gives
  the same result. \<open>split\<close> never returns an empty list, so the \<open>IndexError\<close> that the
  source also catches cannot arise.
\<close>

definition is_heading_style :: "docx_paragraph \<Rightarrow> int \<Rightarrow> (int \<times> pystr) option" where
  "is_heading_style paragraph max_level =
     (case style_name paragraph of
        None \<Rightarrow> None
      | Some name \<Rightarrow>
          if name = [] then None
          else if prefix (str ''heading '') (py_lower (py_strip name)) then
            (case py_int (last (py_split 0x20 name)) of
               None \<Rightarrow> None
             | Some level \<Rightarrow>
                 if 1 \<le> level \<and> level \<le> max_level then Some (level, para_text paragraph)
                 else None)
          else None)"

section \<open>Structure extraction\<close>

text \<open>
  An element of the document body, as far as the program reads it: whether its tag ends
  with \<open>}p\<close>, the paragraph object that the search through \<open>document.paragraphs\<close> finds
  for it (\<open>None\<close> when the search finds none), and the identity of the element.
\<close>

record element =
  tag_is_p :: bool
  para_obj :: "docx_paragraph option"
  ident :: nat

record doc_section =
  sec_text :: pystr
  sec_level :: int
  sec_elements :: "element list option"

definition PREAMBLE :: pystr where
  "PREAMBLE = str ''__PREAMBLE__''"

text \<open>Python's truth value of an optional list: \<open>None\<close> and the empty list are false.\<close>

fun truthy :: "'a list option \<Rightarrow> bool" where
  "truthy None = False"
| "truthy (Some xs) = (xs \<noteq> [])"

record scan_state =
  sections :: "doc_section list"
  current_section_elements :: "element list option"
  current_heading_info :: "pystr \<times> int"

text \<open>
  Lines 54 to 59 and 66 to 71: the section under construction is appended when it has a
  heading or holds elements.
\<close>

definition close_section :: "bool \<Rightarrow> scan_state \<Rightarrow> doc_section list" where
  "close_section include_elements st =
     (if snd (current_heading_info st) > 0 \<or> truthy (current_section_elements st)
      then sections st @
             [\<lparr>sec_text = py_strip (fst (current_heading_info st)),
               sec_level = snd (current_heading_info st),
               sec_elements = (if include_elements then current_section_elements st else None)\<rparr>]
      else sections st)"

text \<open>Lines 44 to 52: the heading level and text of an element, if it is a heading.\<close>

definition heading_of :: "int \<Rightarrow> element \<Rightarrow> (int \<times> pystr) option" where
  "heading_of max_level e =
     (if tag_is_p e then
        (case para_obj e of
           None \<Rightarrow> None
         | Some p \<Rightarrow> is_heading_style p max_level)
      else None)"

text \<open>One round of the loop over the body, lines 43 to 64.\<close>

definition scan_element :: "int \<Rightarrow> bool \<Rightarrow> scan_state \<Rightarrow> element \<Rightarrow> scan_state" where
  "scan_element max_level include_elements st e =
     (case heading_of max_level e of
        Some (level, heading_text) \<Rightarrow>
          \<lparr>sections = close_section include_elements st,
           current_section_elements = (if include_elements then Some [e] else None),
           current_heading_info = (heading_text, level)\<rparr>
      | None \<Rightarrow>
          (case current_section_elements st of
             Some es \<Rightarrow>
               if include_elements then st\<lparr>current_section_elements := Some (es @ [e])\<rparr>
               else st
           | None \<Rightarrow> st))"

definition scan_init :: "bool \<Rightarrow> scan_state" where
  "scan_init include_elements =
     \<lparr>sections = [],
      current_section_elements = (if include_elements then Some [] else None),
      current_heading_info = (PREAMBLE, 0)\<rparr>"

text \<open>
  \<open>parse_document_structure\<close>. The document is the body that the library read from the
  path, or \<open>None\<close> when the library could not open or parse the file; then the source
  returns \<open>(None, None)\<close>, here \<open>None\<close>.
\<close>

definition parse_document_structure ::
  "element list option \<Rightarrow> int \<Rightarrow> bool \<Rightarrow> doc_section list option" where
  "parse_document_structure document max_level include_elements =
     (case document of
        None \<Rightarrow> None
      | Some body \<Rightarrow>
          (let st = foldl (scan_element max_level include_elements)
                      (scan_init include_elements) body;
               secs = close_section include_elements st
           in Some (case secs of
                      [] \<Rightarrow> secs
                    | s # rest \<Rightarrow>
                        if include_elements \<and> sec_text s = PREAMBLE
                           \<and> \<not> truthy (sec_elements s)
                        then rest else secs)))"


section \<open>The outline file\<close>

text \<open>
  The data that the YAML library hands over: strings, integers, other scalars (null,
  booleans, floats, dates), lists, and mappings as the list of their entries in insertion
  order. The program looks up the keys \<open>toc\<close>, \<open>heading\<close> and \<open>children\<close> only; the
  keys are kept as ASCII texts.
\<close>

datatype yaml =
    YStr pystr
  | YInt int
  | YOther
  | YList "yaml list"
  | YMap "(string \<times> yaml) list"

text \<open>
  \<open>extract_headings\<close> of lines 125 to 134, with the list \<open>flat_headings\<close> it appends to
  as its result. An item that is neither a string nor a mapping with the key \<open>heading\<close>
  is skipped (the source prints a warning there).
\<close>

function (sequential) extract_headings :: "yaml list \<Rightarrow> yaml list" where
  "extract_headings [] = []"
| "extract_headings (YStr s # rest) = YStr s # extract_headings rest"
| "extract_headings (YMap m # rest) =
     (case map_of m ''heading'' of
        None \<Rightarrow> extract_headings rest
      | Some h \<Rightarrow>
          (case map_of m ''children'' of
             Some (YList cs) \<Rightarrow> h # extract_headings cs @ extract_headings rest
           | _ \<Rightarrow> h # extract_headings rest))"
| "extract_headings (_ # rest) = extract_headings rest"
  by pat_completeness auto
termination
proof -
  have children_smaller: "size_list size cs < Suc (size_list (size_prod (\<lambda>_. 0) size) m)"
    if "map_of m k = Some (YList cs)" for m :: "(string \<times> yaml) list" and k cs
    using that by (induction m) (auto split: if_splits)
  show ?thesis
    by (relation "measure (size_list size)") (auto dest: children_smaller)
qed

text \<open>
  \<open>load_toc_config_for_reorganize\<close>, from the parsed content of the file on; \<open>None\<close> as
  argument is a file that could not be read or parsed, \<open>None\<close> as result the failure.
\<close>

definition load_toc_config_for_reorganize :: "yaml option \<Rightarrow> yaml list option" where
  "load_toc_config_for_reorganize config =
     (case config of
        Some (YMap m) \<Rightarrow>
          (case map_of m ''toc'' of
             Some (YList toc_data) \<Rightarrow>
               (let flat_headings = extract_headings toc_data
                in if flat_headings = [] then None else Some flat_headings)
           | _ \<Rightarrow> None)
      | _ \<Rightarrow> None)"

section \<open>Reorganizing\<close>

datatype unmatched_policy = Append | Delete | Warn

datatype missing_policy = Error | WarnMissing | Ignore

record args =
  arg_max_level :: int
  arg_unmatched :: unmatched_policy
  arg_missing :: missing_policy

text \<open>
  What the program does not decide: the order in which Python iterates over a set of
  strings (given the elements in some order, it returns them in the order of iteration),
  which elements \<open>copy.deepcopy\<close> fails on, and whether saving the new document fails.
\<close>

record env =
  set_order :: "pystr list \<Rightarrow> pystr list"
  copy_fails :: "element \<Rightarrow> bool"
  save_fails :: bool

text \<open>An iteration over a set yields each of its elements once.\<close>

definition set_iteration :: "(pystr list \<Rightarrow> pystr list) \<Rightarrow> bool" where
  "set_iteration ord = (\<forall>xs. distinct xs \<longrightarrow> distinct (ord xs) \<and> set (ord xs) = set xs)"

text \<open>The reports on the error stream that the reconciliation makes.\<close>

datatype message =
    DuplicateHeading pystr
  | MissingAbort "pystr list"
  | MissingSkipped "pystr list"
  | UnmatchedDiscarded "pystr list"
  | UnmatchedAppended unmatched_policy "pystr list"
  | NothingToWrite

text \<open>
  The ways in which \<open>run_reorganize\<close> ends without a document: the four places where it
  returns \<open>False\<close>, and the exceptions that nothing catches.
\<close>

datatype failure =
    TocLoadFailed
  | DocumentUnreadable
  | MissingHeadings
  | SaveFailed
  | UncaughtTypeError
  | UncaughtKeyError

record map_state =
  source_sections_map :: "(pystr \<times> doc_section) list"
  duplicate_headings :: "pystr set"
  headings_seen :: "pystr set"
  preamble_section :: "doc_section option"
  warnings :: "message list"

text \<open>One round of the loop of lines 191 to 203.\<close>

definition map_step :: "map_state \<Rightarrow> doc_section \<Rightarrow> map_state" where
  "map_step st s =
     (let heading_text = sec_text s in
      if heading_text = PREAMBLE then st\<lparr>preamble_section := Some s\<rparr>
      else if heading_text \<in> headings_seen st \<and> heading_text \<notin> duplicate_headings st then
        st\<lparr>warnings := warnings st @ [DuplicateHeading heading_text],
           duplicate_headings := insert heading_text (duplicate_headings st)\<rparr>
      else if heading_text \<notin> headings_seen st then
        st\<lparr>source_sections_map := AList.update heading_text s (source_sections_map st),
           headings_seen := insert heading_text (headings_seen st)\<rparr>
      else st)"

definition map_init :: map_state where
  "map_init = \<lparr>source_sections_map = [], duplicate_headings = {}, headings_seen = {},
               preamble_section = None, warnings = []\<rparr>"

definition build_source_map :: "doc_section list \<Rightarrow> map_state" where
  "build_source_map secs = foldl map_step map_init secs"

text \<open>Lines 210 to 214.\<close>

definition missing_in_source :: "(pystr \<times> doc_section) list \<Rightarrow> pystr list \<Rightarrow> pystr list" where
  "missing_in_source smap target = filter (\<lambda>h. h \<notin> set (map fst smap)) target"

text \<open>
  Line 216: the set difference \<open>found_source_headings - target_toc_set\<close>, as the list
  that an iteration over it yields.
\<close>

definition unmatched_in_source_headings ::
  "env \<Rightarrow> (pystr \<times> doc_section) list \<Rightarrow> pystr list \<Rightarrow> pystr list" where
  "unmatched_in_source_headings ev smap target =
     set_order ev (filter (\<lambda>h. h \<notin> set target) (map fst smap))"

text \<open>\<open>[source_sections_map[h] for h in hs]\<close>; \<open>None\<close> is the \<open>KeyError\<close>.\<close>

definition lookup_all :: "(pystr \<times> doc_section) list \<Rightarrow> pystr list \<Rightarrow> doc_section list option" where
  "lookup_all smap hs = those (map (map_of smap) hs)"

text \<open>The loop of lines 247 to 255, with the set \<open>processed_target_headings\<close>.\<close>

fun schedule :: "(pystr \<times> doc_section) list \<Rightarrow> pystr set \<Rightarrow> pystr list \<Rightarrow> doc_section list" where
  "schedule smap processed [] = []"
| "schedule smap processed (h # hs) =
     (case map_of smap h of
        Some s \<Rightarrow>
          if h \<notin> processed then s # schedule smap (insert h processed) hs
          else schedule smap processed hs
      | None \<Rightarrow> schedule smap processed hs)"

text \<open>Lines 243 to 245.\<close>

definition preamble_first :: "doc_section option \<Rightarrow> doc_section list" where
  "preamble_first pre =
     (case pre of
        None \<Rightarrow> []
      | Some s \<Rightarrow> if truthy (sec_elements s) then [s] else [])"

text \<open>
  Lines 205 to 263: the sections to write, in order, with the reports made on the way;
  \<open>Inl\<close> when the run ends there.
\<close>

definition plan_sections ::
  "env \<Rightarrow> args \<Rightarrow> map_state \<Rightarrow> pystr list \<Rightarrow> message list \<times> (failure + doc_section list)" where
  "plan_sections ev a st target =
     (let smap = source_sections_map st;
          missing = missing_in_source smap target;
          unmatched = unmatched_in_source_headings ev smap target;
          log1 = (if missing = [] then []
                  else if arg_missing a = Error then [MissingAbort missing]
                  else if arg_missing a = WarnMissing then [MissingSkipped missing]
                  else [])
      in if missing \<noteq> [] \<and> arg_missing a = Error then (warnings st @ log1, Inl MissingHeadings)
         else
           (case lookup_all smap unmatched of
              None \<Rightarrow> (warnings st @ log1, Inl UncaughtKeyError)
            | Some unmatched_sections \<Rightarrow>
                (let unmatched_original_text = map sec_text unmatched_sections;
                     log2 = (if unmatched = [] then []
                             else if arg_unmatched a = Delete
                               then [UnmatchedDiscarded unmatched_original_text]
                             else [UnmatchedAppended (arg_unmatched a) unmatched_original_text]);
                     unmatched_sections_to_append =
                       (if unmatched = [] \<or> arg_unmatched a = Delete then []
                        else unmatched_sections);
                     sections_to_write =
                       preamble_first (preamble_section st)
                       @ schedule smap {} target
                       @ unmatched_sections_to_append;
                     log3 = (if sections_to_write = [] then [NothingToWrite] else [])
                 in (warnings st @ log1 @ log2 @ log3, Inr sections_to_write))))"

text \<open>
  Lines 272 to 291: the elements copied into the new document. A section without
  elements is passed over; a copy that raises is counted and skipped.
\<close>

definition copied :: "env \<Rightarrow> doc_section list \<Rightarrow> element list" where
  "copied ev sections_to_write =
     concat (map (\<lambda>s. case sec_elements s of
                          None \<Rightarrow> []
                        | Some es \<Rightarrow> filter (\<lambda>e. \<not> copy_fails ev e) es)
                 sections_to_write)"

text \<open>
  Lines 265 to 303: the body of the document that is saved. Summing the lengths of the
  element lists (line 268) raises a \<open>TypeError\<close> when a scheduled section has the value
  \<open>None\<close> for its elements; a save that fails ends the run.
\<close>

definition emit :: "env \<Rightarrow> doc_section list \<Rightarrow> failure + element list" where
  "emit ev sections_to_write =
     (if \<exists>s \<in> set sections_to_write. sec_elements s = None then Inl UncaughtTypeError
      else if save_fails ev then Inl SaveFailed
      else Inr (copied ev sections_to_write))"

text \<open>The headings of the outline as strings; a heading that is no string has none.\<close>

fun heading_strings :: "yaml list \<Rightarrow> pystr list option" where
  "heading_strings [] = Some []"
| "heading_strings (YStr s # rest) = map_option ((#) s) (heading_strings rest)"
| "heading_strings (_ # rest) = None"

text \<open>
  \<open>run_reorganize\<close>: \<open>Inr\<close> holds the body of the document that was saved. A heading of
  the outline that is no string is in no set of source headings, so it is missing from
  the source, and joining the missing headings into the report raises a \<open>TypeError\<close>
  under every policy (for a heading that cannot be hashed, building the set of target
  headings raises it before).
\<close>

definition run_reorganize ::
  "env \<Rightarrow> args \<Rightarrow> yaml option \<Rightarrow> element list option \<Rightarrow> message list \<times> (failure + element list)" where
  "run_reorganize ev a config document =
     (case load_toc_config_for_reorganize config of
        None \<Rightarrow> ([], Inl TocLoadFailed)
      | Some target_toc_headings \<Rightarrow>
          (case parse_document_structure document (arg_max_level a) True of
             None \<Rightarrow> ([], Inl DocumentUnreadable)
           | Some source_sections_data \<Rightarrow>
               (let st = build_source_map source_sections_data in
                case heading_strings target_toc_headings of
                  None \<Rightarrow> (warnings st, Inl UncaughtTypeError)
                | Some target \<Rightarrow>
                    (case plan_sections ev a st target of
                       (log, Inl f) \<Rightarrow> (log, Inl f)
                     | (log, Inr sections_to_write) \<Rightarrow> (log, emit ev sections_to_write)))))"


section \<open>Building the nested outline\<close>

text \<open>
  \<open>build_nested_toc\<close> works on objects that it shares and changes in place: the node
  dictionaries, the lists of children, and the stack entries that point into them. The
  model keeps them in a store. A dictionary of a node is the list of its entries in
  insertion order; its values are strings, integers and references to list objects. A
  list object holds the addresses of node dictionaries. An address is the position in
  the store; a new object is put at the end.
\<close>

datatype pyval = PStr pystr | PInt int | PRef nat

record store =
  dicts :: "(string \<times> pyval) list list"
  lists :: "nat list list"

definition new_dict :: "(string \<times> pyval) list \<Rightarrow> store \<Rightarrow> store \<times> nat" where
  "new_dict d h = (h\<lparr>dicts := dicts h @ [d]\<rparr>, length (dicts h))"

definition new_list :: "nat list \<Rightarrow> store \<Rightarrow> store \<times> nat" where
  "new_list xs h = (h\<lparr>lists := lists h @ [xs]\<rparr>, length (lists h))"

text \<open>Reading an object; \<open>None\<close> for an address that holds nothing.\<close>

definition get_dict :: "store \<Rightarrow> nat \<Rightarrow> (string \<times> pyval) list option" where
  "get_dict h a = (if a < length (dicts h) then Some (dicts h ! a) else None)"

definition get_list :: "store \<Rightarrow> nat \<Rightarrow> nat list option" where
  "get_list h l = (if l < length (lists h) then Some (lists h ! l) else None)"

text \<open>\<open>xs[-1]\<close> of a list object; \<open>None\<close> is the \<open>IndexError\<close> on an empty list.\<close>

definition list_last :: "store \<Rightarrow> nat \<Rightarrow> nat option" where
  "list_last h l = do { xs \<leftarrow> get_list h l; if xs = [] then None else Some (last xs) }"

text \<open>\<open>xs.append(a)\<close>.\<close>

definition list_append :: "nat \<Rightarrow> nat \<Rightarrow> store \<Rightarrow> store option" where
  "list_append l a h = do { xs \<leftarrow> get_list h l; Some (h\<lparr>lists := (lists h)[l := xs @ [a]]\<rparr>) }"

text \<open>\<open>node['children']\<close> as a list object; \<open>None\<close> is the \<open>KeyError\<close>.\<close>

definition children_of :: "store \<Rightarrow> nat \<Rightarrow> nat option" where
  "children_of h a =
     do { d \<leftarrow> get_dict h a;
          (case map_of d ''children'' of Some (PRef l) \<Rightarrow> Some l | _ \<Rightarrow> None) }"

text \<open>\<open>if 'children' not in node: node['children'] = []\<close>.\<close>

definition ensure_children :: "nat \<Rightarrow> store \<Rightarrow> store option" where
  "ensure_children a h =
     do { d \<leftarrow> get_dict h a;
          if map_of d ''children'' = None then
            (let (h', l) = new_list [] h
             in Some (h'\<lparr>dicts := (dicts h')[a := AList.update ''children'' (PRef l) d]\<rparr>))
          else Some h }"

text \<open>\<open>del node['children']\<close>.\<close>

definition delete_children :: "nat \<Rightarrow> store \<Rightarrow> store option" where
  "delete_children a h =
     do { d \<leftarrow> get_dict h a;
          Some (h\<lparr>dicts := (dicts h)[a := AList.delete ''children'' d]\<rparr>) }"

text \<open>
  The state of the loop of lines 84 to 100: the store and the stack, whose entries pair a
  level with the address of a list object. The stack has its top at the head. The list
  \<open>nested_toc\<close> is the list object at address 0.
\<close>

type_synonym build_state = "store \<times> (int \<times> nat) list"

definition nested_toc :: nat where
  "nested_toc = 0"

definition build_init :: build_state where
  "build_init = (\<lparr>dicts = [], lists = [[]]\<rparr>, [])"

text \<open>One round of the loop; \<open>None\<close> when the round raises an exception.\<close>

definition build_step :: "build_state \<Rightarrow> doc_section \<Rightarrow> build_state option" where
  "build_step st section =
     (let (h, stack) = st; level = sec_level section in
      if level = 0 then Some st
      else
        (let (h1, node) = new_dict [(''heading'', PStr (sec_text section)), (''level'', PInt level)] h;
             stack1 = dropWhile (\<lambda>(l, _). l \<ge> level) stack
         in case stack1 of
              [] \<Rightarrow>
                do { h2 \<leftarrow> list_append nested_toc node h1;
                     h3 \<leftarrow> ensure_children node h2;
                     let (h4, single) = new_list [node] h3;
                     Some (h4, [(level, single)]) }
            | (_, parent_node_list) # _ \<Rightarrow>
                do { parent \<leftarrow> list_last h1 parent_node_list;
                     h2 \<leftarrow> ensure_children parent h1;
                     c \<leftarrow> children_of h2 parent;
                     h3 \<leftarrow> list_append c node h2;
                     h4 \<leftarrow> ensure_children node h3;
                     top \<leftarrow> list_last h4 parent_node_list;
                     c' \<leftarrow> children_of h4 top;
                     Some (h4, (level, c') # stack1) }))"

fun build_loop :: "build_state \<Rightarrow> doc_section list \<Rightarrow> build_state option" where
  "build_loop st [] = Some st"
| "build_loop st (s # rest) = do { st' \<leftarrow> build_step st s; build_loop st' rest }"

text \<open>
  \<open>cleanup_empty_children\<close>, on the nodes of a list object. The first argument bounds
  the depth of the recursion, as the interpreter's recursion limit does; \<open>None\<close> when it
  is used up, or an exception is raised.
\<close>

fun cleanup_nodes :: "nat \<Rightarrow> nat list \<Rightarrow> store \<Rightarrow> store option" where
  "cleanup_nodes depth [] h = Some h"
| "cleanup_nodes 0 (node # rest) h = None"
| "cleanup_nodes (Suc depth) (node # rest) h =
     do { d \<leftarrow> get_dict h node;
          h' \<leftarrow> (if map_of d ''children'' = None then Some h
                else do { c \<leftarrow> children_of h node;
                          cs \<leftarrow> get_list h c;
                          h1 \<leftarrow> (if cs \<noteq> [] then cleanup_nodes depth cs h else Some h);
                          cs' \<leftarrow> get_list h1 c;
                          if cs' = [] then delete_children node h1 else Some h1 });
          cleanup_nodes (Suc depth) rest h' }"

definition cleanup_empty_children :: "nat \<Rightarrow> nat \<Rightarrow> store \<Rightarrow> store option" where
  "cleanup_empty_children depth node_list h =
     do { nodes \<leftarrow> get_list h node_list; cleanup_nodes depth nodes h }"

text \<open>The store after \<open>build_nested_toc\<close>; the value returned is the list at address 0.\<close>

definition build_nested_toc :: "nat \<Rightarrow> doc_section list \<Rightarrow> store option" where
  "build_nested_toc depth flat_sections =
     do { (h, stack) \<leftarrow> build_loop build_init flat_sections;
          cleanup_empty_children depth nested_toc h }"

text \<open>
  The data that \<open>yaml.safe_dump\<close> writes for the nodes of a list object, and for a value
  of a dictionary. Every object is written where it is referred to; the recursion is
  bounded like that of the clean-up.
\<close>

fun dump_nodes :: "nat \<Rightarrow> store \<Rightarrow> nat list \<Rightarrow> yaml list option"
  and dump_entries :: "nat \<Rightarrow> store \<Rightarrow> (string \<times> pyval) list \<Rightarrow> (string \<times> yaml) list option"
where
  "dump_nodes depth h [] = Some []"
| "dump_nodes 0 h (node # rest) = None"
| "dump_nodes (Suc depth) h (node # rest) =
     do { d \<leftarrow> get_dict h node;
          m \<leftarrow> dump_entries depth h d;
          ys \<leftarrow> dump_nodes (Suc depth) h rest;
          Some (YMap m # ys) }"
| "dump_entries depth h [] = Some []"
| "dump_entries depth h ((k, PStr s) # rest) =
     do { m \<leftarrow> dump_entries depth h rest; Some ((k, YStr s) # m) }"
| "dump_entries depth h ((k, PInt i) # rest) =
     do { m \<leftarrow> dump_entries depth h rest; Some ((k, YInt i) # m) }"
| "dump_entries depth h ((k, PRef l) # rest) =
     do { nodes \<leftarrow> get_list h l;
          ys \<leftarrow> dump_nodes depth h nodes;
          m \<leftarrow> dump_entries depth h rest;
          Some ((k, YList ys) # m) }"

text \<open>The data written for \<open>nested_toc\<close>, the list object at address 0.\<close>

definition serialize_toc :: "nat \<Rightarrow> store \<Rightarrow> yaml list option" where
  "serialize_toc depth h = do { nodes \<leftarrow> get_list h nested_toc; dump_nodes depth h nodes }"

datatype generate_failure =
    SourceUnreadable
  | UncaughtException
  | OutlineNotWritten

text \<open>
  \<open>run_generate\<close>: \<open>Inr\<close> holds the content of the outline file that was written. An
  exception in \<open>build_nested_toc\<close> is caught nowhere; one in \<open>yaml.safe_dump\<close>, or a file
  that cannot be written, makes the function return \<open>False\<close>.
\<close>

definition run_generate ::
  "nat \<Rightarrow> bool \<Rightarrow> int \<Rightarrow> element list option \<Rightarrow> generate_failure + yaml" where
  "run_generate depth write_fails max_level document =
     (case parse_document_structure document max_level False of
        None \<Rightarrow> Inl SourceUnreadable
      | Some flat_sections \<Rightarrow>
          (case build_nested_toc depth flat_sections of
             None \<Rightarrow> Inl UncaughtException
           | Some h \<Rightarrow>
               (case serialize_toc depth h of
                  None \<Rightarrow> Inl OutlineNotWritten
                | Some nested_toc_structure \<Rightarrow>
                    if write_fails then Inl OutlineNotWritten
                    else Inr (YMap [(''toc'', YList nested_toc_structure)]))))"

section \<open>Example documents\<close>

text \<open>A paragraph with a style, any other element, and an outline file of plain headings.\<close>

definition para :: "pystr \<Rightarrow> pystr \<Rightarrow> nat \<Rightarrow> element" where
  "para sty txt i =
     \<lparr>tag_is_p = True, para_obj = Some \<lparr>style_name = Some sty, para_text = txt\<rparr>, ident = i\<rparr>"

definition other :: "nat \<Rightarrow> element" where
  "other i = \<lparr>tag_is_p = False, para_obj = None, ident = i\<rparr>"

definition toc_file :: "pystr list \<Rightarrow> yaml option" where
  "toc_file hs = Some (YMap [(''toc'', YList (map YStr hs))])"

definition plain_env :: "(pystr list \<Rightarrow> pystr list) \<Rightarrow> env" where
  "plain_env ord = \<lparr>set_order = ord, copy_fails = (\<lambda>_. False), save_fails = False\<rparr>"

definition default_args :: args where
  "default_args = \<lparr>arg_max_level = 6, arg_unmatched = Append, arg_missing = WarnMissing\<rparr>"

definition heading_section :: "pystr \<Rightarrow> nat \<Rightarrow> doc_section" where
  "heading_section h i =
     \<lparr>sec_text = h, sec_level = 1, sec_elements = Some [para (str ''Heading 1'') h i]\<rparr>"

section \<open>Auxiliary notions\<close>

text \<open>Every section of the map is stored under its own heading text, never the marker.\<close>

definition keyed :: "(pystr \<times> doc_section) list \<Rightarrow> bool" where
  "keyed smap = (\<forall>h s. map_of smap h = Some s \<longrightarrow> sec_text s = h \<and> h \<noteq> PREAMBLE)"

text \<open>
  A section as the extraction with element capture produces it: it holds at least one
  element, only the first can be a heading, and it is either the preamble (level 0, the
  marker as text, no heading at all) or opened by a heading whose level it carries and
  whose trimmed text is its text.
\<close>

definition wf_section :: "int \<Rightarrow> doc_section \<Rightarrow> bool" where
  "wf_section L s =
     (case sec_elements s of
        None \<Rightarrow> False
      | Some es \<Rightarrow>
          es \<noteq> [] \<and> (\<forall>e \<in> set (tl es). heading_of L e = None)
          \<and> (if sec_level s = 0 then sec_text s = PREAMBLE \<and> heading_of L (hd es) = None
              else \<exists>t. heading_of L (hd es) = Some (sec_level s, t) \<and> sec_text s = py_strip t))"

definition elements_of :: "doc_section list \<Rightarrow> element list" where
  "elements_of secs =
     concat (map (\<lambda>s. case sec_elements s of None \<Rightarrow> [] | Some es \<Rightarrow> es) secs)"

text \<open>The invariant of the loop over the body, after the elements \<open>xs\<close>.\<close>

definition scan_inv :: "int \<Rightarrow> element list \<Rightarrow> scan_state \<Rightarrow> bool" where
  "scan_inv L xs st =
     (case current_section_elements st of
        None \<Rightarrow> False
      | Some cur \<Rightarrow>
          (\<forall>s \<in> set (sections st). wf_section L s)
          \<and> elements_of (sections st) @ cur = xs
          \<and> (\<forall>i < length (sections st). sec_level (sections st ! i) = 0 \<longrightarrow> i = 0)
          \<and> (if snd (current_heading_info st) = 0
              then sections st = [] \<and> fst (current_heading_info st) = PREAMBLE
                   \<and> (\<forall>e \<in> set cur. heading_of L e = None)
              else cur \<noteq> [] \<and> heading_of L (hd cur)
                        = Some (snd (current_heading_info st), fst (current_heading_info st))
                   \<and> (\<forall>e \<in> set (tl cur). heading_of L e = None)))"

text \<open>A list without the repetitions of its members: each stays where it comes first.\<close>

function first_occurrences :: "'a list \<Rightarrow> 'a list" where
  "first_occurrences [] = []"
| "first_occurrences (x # xs) = x # first_occurrences (filter (\<lambda>y. y \<noteq> x) xs)"
  by pat_completeness auto
termination
  by (relation "measure length") (auto simp: less_Suc_eq_le)

text \<open>The elements of a section; none when it has no element list.\<close>

definition elems :: "doc_section \<Rightarrow> element list" where
  "elems s = (case sec_elements s of None \<Rightarrow> [] | Some es \<Rightarrow> es)"

text \<open>A section of the flat heading list, as the extraction without capture gives it.\<close>

definition flat_section :: "pystr \<Rightarrow> int \<Rightarrow> doc_section" where
  "flat_section t l = \<lparr>sec_text = t, sec_level = l, sec_elements = None\<rparr>"

section \<open>The classification of a style name in words\<close>

text \<open>
  Trimming at both ends, said without a loop: \<open>t\<close> is \<open>s\<close> without a run of white space in
  front and one behind, and \<open>t\<close> neither begins nor ends with white space.
\<close>

definition trims_to :: "(int \<Rightarrow> bool) \<Rightarrow> pystr \<Rightarrow> pystr \<Rightarrow> bool" where
  "trims_to ws s t =
     (\<exists>l r. s = l @ t @ r \<and> list_all ws l \<and> list_all ws r
            \<and> (t = [] \<or> (\<not> ws (hd t) \<and> \<not> ws (last t))))"

text \<open>Two characters that are equal, or a capital ASCII letter and its small one.\<close>

definition same_letter :: "int \<Rightarrow> int \<Rightarrow> bool" where
  "same_letter c d = (c = d \<or> (0x41 \<le> c \<and> c \<le> 0x5A \<and> d = c + 0x20))"

text \<open>
  The name, trimmed at both ends, begins with the eight characters of \<open>heading\<close> and a
  space, capital or small.
\<close>

definition names_heading :: "pystr \<Rightarrow> bool" where
  "names_heading name =
     (\<exists>w rest. trims_to is_space name (w @ rest) \<and> list_all2 same_letter w (str ''heading ''))"

text \<open>The token is what follows the last space of the name: all of it when it has none.\<close>

definition trailing_token :: "pystr \<Rightarrow> pystr \<Rightarrow> bool" where
  "trailing_token name tok =
     (\<exists>front. name = front @ tok \<and> 0x20 \<notin> set tok \<and> (front = [] \<or> last front = 0x20))"

text \<open>
  A run of decimal digits, single underscores allowed between two of them, and the
  number that it denotes.
\<close>

inductive decimal_literal :: "pystr \<Rightarrow> nat \<Rightarrow> bool" where
  digit: "digit_val c = Some d \<Longrightarrow> decimal_literal [c] d"
| next_digit: "decimal_literal s v \<Longrightarrow> digit_val c = Some d
                 \<Longrightarrow> decimal_literal (s @ [c]) (10 * v + d)"
| underscore: "decimal_literal s v \<Longrightarrow> digit_val c = Some d
                 \<Longrightarrow> decimal_literal (s @ [0x5F, c]) (10 * v + d)"

text \<open>
  The token reads as the integer \<open>n\<close>: white space at both ends aside, it is a decimal
  literal of at most 4300 digits, with or without a sign in front.
\<close>

definition integer_text :: "pystr \<Rightarrow> int \<Rightarrow> bool" where
  "integer_text tok n =
     (\<exists>core digits v.
        trims_to is_int_space tok core \<and> decimal_literal digits v
        \<and> length (filter (\<lambda>c. digit_val c \<noteq> None) digits) \<le> 4300
        \<and> (core = digits \<and> n = int v
            \<or> core = 0x2B # digits \<and> n = int v
            \<or> core = 0x2D # digits \<and> n = - int v))"

text \<open>A style name that makes its paragraph a heading of level \<open>n\<close>, for the bound \<open>L\<close>.\<close>

definition heading_style_name :: "pystr \<Rightarrow> int \<Rightarrow> int \<Rightarrow> bool" where
  "heading_style_name name L n =
     (names_heading name \<and> (\<exists>tok. trailing_token name tok \<and> integer_text tok n)
      \<and> 1 \<le> n \<and> n \<le> L)"
section \<open>Auxiliary notions for the outline\<close>

text \<open>
  A node of the outline with what it stands for in the store: the address of its
  dictionary, the address of its list of children, its heading, its level, its children.
\<close>

datatype atree = AT (a_dict: nat) (a_list: nat) (a_heading: pystr) (a_level: int)
  (a_children: "atree list")

definition full_dict :: "pystr \<Rightarrow> int \<Rightarrow> nat \<Rightarrow> (string \<times> pyval) list" where
  "full_dict tx lv c = [(''heading'', PStr tx), (''level'', PInt lv), (''children'', PRef c)]"

text \<open>The store holds the node, every dictionary with its list of children.\<close>

fun repr :: "store \<Rightarrow> atree \<Rightarrow> bool" where
  "repr h (AT a c tx lv ts) =
     (get_dict h a = Some (full_dict tx lv c)
      \<and> get_list h c = Some (map a_dict ts)
      \<and> (\<forall>t \<in> set ts. repr h t))"

fun laddrs :: "atree \<Rightarrow> nat list" where
  "laddrs (AT a c tx lv ts) = c # concat (map laddrs ts)"

fun daddrs :: "atree \<Rightarrow> nat list" where
  "daddrs (AT a c tx lv ts) = a # concat (map daddrs ts)"

fun preorder :: "atree \<Rightarrow> (pystr \<times> int) list" where
  "preorder (AT a c tx lv ts) = (tx, lv) # concat (map preorder ts)"

text \<open>The node \<open>k\<close> steps down the last children, and whether there is one.\<close>

fun node_at :: "atree \<Rightarrow> nat \<Rightarrow> atree" where
  "node_at t 0 = t"
| "node_at t (Suc k) = node_at (last (a_children t)) k"

fun path_ok :: "atree \<Rightarrow> nat \<Rightarrow> bool" where
  "path_ok t 0 = True"
| "path_ok t (Suc k) = (a_children t \<noteq> [] \<and> path_ok (last (a_children t)) k)"

text \<open>A new last child for the node \<open>k\<close> steps down the last children.\<close>

fun attach_in :: "atree \<Rightarrow> nat \<Rightarrow> atree \<Rightarrow> atree" where
  "attach_in (AT a c tx lv ts) 0 n = AT a c tx lv (ts @ [n])"
| "attach_in (AT a c tx lv ts) (Suc k) n =
     AT a c tx lv (butlast ts @ [attach_in (last ts) k n])"

text \<open>
  The entries of the stack above its lowest one, from the bottom: each pairs the level of
  the node one step further down the last children with the list that holds this node.
\<close>

fun chain_under :: "atree \<Rightarrow> (int \<times> nat) list \<Rightarrow> bool" where
  "chain_under t [] = True"
| "chain_under t ((l, r) # rs) =
     (r = a_list t \<and> a_children t \<noteq> [] \<and> l = a_level (last (a_children t))
      \<and> chain_under (last (a_children t)) rs)"

text \<open>Levels grow strictly from a node to its children.\<close>

fun ordered :: "atree \<Rightarrow> bool" where
  "ordered (AT a c tx lv ts) = (\<forall>t \<in> set ts. lv < a_level t \<and> ordered t)"

text \<open>The tree is at most \<open>d\<close> nodes deep.\<close>

fun fits :: "nat \<Rightarrow> atree \<Rightarrow> bool" where
  "fits 0 t = False"
| "fits (Suc d) (AT a c tx lv ts) = (\<forall>t \<in> set ts. fits d t)"

text \<open>
  The stack, from the bottom, follows the last children of the last root: its lowest
  entry holds a list of its own with the last root alone in it.
\<close>

definition stack_ok :: "store \<Rightarrow> atree list \<Rightarrow> (int \<times> nat) list \<Rightarrow> bool" where
  "stack_ok h F bs =
     (case bs of
        [] \<Rightarrow> True
      | (l, r) # rs \<Rightarrow> F \<noteq> [] \<and> get_list h r = Some [a_dict (last F)]
                 \<and> l = a_level (last F)
                 \<and> r \<notin> set (concat (map laddrs F)) \<and> r \<noteq> nested_toc
                 \<and> chain_under (last F) rs)"

text \<open>
  The invariant of the loop of \<open>build_nested_toc\<close>: the store holds the forest \<open>F\<close>, no
  two nodes share a dictionary or a list, and the stack points into the forest.
\<close>

definition build_inv :: "store \<Rightarrow> (int \<times> nat) list \<Rightarrow> atree list \<Rightarrow> bool" where
  "build_inv h stack F =
     (get_list h nested_toc = Some (map a_dict F)
      \<and> (\<forall>t \<in> set F. repr h t)
      \<and> distinct (concat (map laddrs F)) \<and> nested_toc \<notin> set (concat (map laddrs F))
      \<and> distinct (concat (map daddrs F))
      \<and> (\<forall>t \<in> set F. ordered t)
      \<and> stack_ok h F (rev stack))"

text \<open>The headings of a flat list with their levels, preamble entries left out.\<close>

definition flat_headings :: "doc_section list \<Rightarrow> (pystr \<times> int) list" where
  "flat_headings secs = map (\<lambda>s. (sec_text s, sec_level s)) (filter (\<lambda>s. sec_level s \<noteq> 0) secs)"

definition base_dict :: "pystr \<Rightarrow> int \<Rightarrow> (string \<times> pyval) list" where
  "base_dict tx lv = [(''heading'', PStr tx), (''level'', PInt lv)]"

text \<open>The store holds the node after the clean-up: no list of children where it has none.\<close>

fun clean_repr :: "store \<Rightarrow> atree \<Rightarrow> bool" where
  "clean_repr h (AT a c tx lv ts) =
     (get_dict h a = Some (if ts = [] then base_dict tx lv else full_dict tx lv c)
      \<and> (ts \<noteq> [] \<longrightarrow> get_list h c = Some (map a_dict ts))
      \<and> (\<forall>t \<in> set ts. clean_repr h t))"

text \<open>The data written for a node after the clean-up.\<close>

fun yaml_of :: "atree \<Rightarrow> yaml" where
  "yaml_of (AT a c tx lv ts) =
     YMap ([(''heading'', YStr tx), (''level'', YInt lv)]
           @ (if ts = [] then [] else [(''children'', YList (map yaml_of ts))]))"

section \<open>Properties of heading classification\<close>

subsection \<open>Trimming\<close>

lemma rev_split: "rev (dropWhile P (rev xs)) @ rev (takeWhile P (rev xs)) = xs"
proof -
  have "rev (takeWhile P (rev xs) @ dropWhile P (rev xs)) = rev (rev xs)"
    by (simp only: takeWhile_dropWhile_id)
  then show ?thesis by (simp only: rev_append rev_rev_ident)
qed

lemma takeWhile_snoc_stop: "\<not> P x \<Longrightarrow> takeWhile P (xs @ [x]) = takeWhile P xs"
  by (induction xs) auto

lemma dropWhile_all: "\<forall>c \<in> set s. P c \<Longrightarrow> dropWhile P s = []"
  by (induction s) auto

lemma strip_trims: "trims_to ws s (rev (dropWhile ws (rev (dropWhile ws s))))"
proof -
  let ?m = "dropWhile ws s"
  let ?t = "rev (dropWhile ws (rev ?m))"
  let ?r = "rev (takeWhile ws (rev ?m))"
  have m: "?m = ?t @ ?r" by (simp only: rev_split)
  have "s = takeWhile ws s @ ?m" by simp
  with m have s: "s = takeWhile ws s @ ?t @ ?r" by (simp only:)
  have l: "list_all ws (takeWhile ws s)"
    by (auto simp: list_all_iff dest: set_takeWhileD)
  have r: "list_all ws ?r"
    by (auto simp: list_all_iff dest: set_takeWhileD)
  have e: "?t = [] \<or> (\<not> ws (hd ?t) \<and> \<not> ws (last ?t))"
  proof (cases "?t = []")
    case True
    then show ?thesis by simp
  next
    case False
    then have ne: "dropWhile ws (rev ?m) \<noteq> []" by simp
    then have "\<not> ws (hd (dropWhile ws (rev ?m)))" by (rule hd_dropWhile)
    with ne have la: "\<not> ws (last ?t)" by (simp add: last_rev)
    have mne: "?m \<noteq> []"
    proof
      assume "?m = []"
      then have "dropWhile ws (rev ?m) = []" by (simp only: rev.simps dropWhile.simps)
      with ne show False by contradiction
    qed
    then have hm: "\<not> ws (hd ?m)" by (rule hd_dropWhile)
    from m have "hd ?m = hd (?t @ ?r)" by (simp only:)
    with False have "hd ?m = hd ?t" by simp
    with hm la show ?thesis by simp
  qed
  from s l r e show ?thesis unfolding trims_to_def by blast
qed

lemma trims_unique:
  assumes "trims_to ws s t"
  shows "rev (dropWhile ws (rev (dropWhile ws s))) = t"
proof -
  from assms obtain l r where s: "s = l @ t @ r" and l: "\<forall>c \<in> set l. ws c"
    and r: "\<forall>c \<in> set r. ws c" and e: "t = [] \<or> (\<not> ws (hd t) \<and> \<not> ws (last t))"
    unfolding trims_to_def list_all_iff by blast
  show ?thesis
  proof (cases "t = []")
    case True
    with s l r have "\<forall>c \<in> set s. ws c" by auto
    then have d: "dropWhile ws s = []" by (rule dropWhile_all)
    show ?thesis unfolding d True by simp
  next
    case False
    with e have h: "\<not> ws (hd t)" and la: "\<not> ws (last t)" by simp_all
    from False obtain x xs where t: "t = x # xs" by (cases t) auto
    with h have x: "\<not> ws x" by simp
    from l have "dropWhile ws (l @ t @ r) = dropWhile ws (t @ r)" by (simp add: dropWhile_append2)
    also from t x have "\<dots> = t @ r" by simp
    finally have d1: "dropWhile ws s = t @ r" using s by simp
    from False have rt: "rev t \<noteq> []" by simp
    from False la have "\<not> ws (hd (rev t))" by (simp add: hd_rev)
    with rt have d: "dropWhile ws (rev t) = rev t" by (cases "rev t") auto
    from r have "dropWhile ws (rev r @ rev t) = dropWhile ws (rev t)"
      by (intro dropWhile_append2) auto
    with d have "dropWhile ws (rev (t @ r)) = rev t" by simp
    with d1 show ?thesis by simp
  qed
qed

lemma py_strip_iff: "(py_strip s = t) = trims_to is_space s t"
  unfolding py_strip_def using strip_trims[of is_space s] trims_unique[of is_space s t] by auto

lemma int_strip_iff: "(int_strip s = t) = trims_to is_int_space s t"
  unfolding int_strip_def using strip_trims[of is_int_space s] trims_unique[of is_int_space s t]
  by auto

subsection \<open>The token after the last space\<close>

lemma py_split_nonempty: "py_split sep s \<noteq> []"
  by (induction s) (auto split: list.splits)

lemma py_split_no_sep: "sep \<notin> set s \<Longrightarrow> py_split sep s = [s]"
  by (induction s) auto

lemma py_split_sep: "sep \<in> set s \<Longrightarrow> tl (py_split sep s) \<noteq> []"
  using py_split_nonempty[of sep] by (induction s) (auto split: list.splits)

lemma last_py_split: "last (py_split sep s) = rev (takeWhile (\<lambda>c. c \<noteq> sep) (rev s))"
proof (induction s)
  case Nil
  then show ?case by simp
next
  case (Cons c cs)
  show ?case
  proof (cases "c = sep")
    case True
    have "takeWhile (\<lambda>c. c \<noteq> sep) (rev cs @ [sep]) = takeWhile (\<lambda>c. c \<noteq> sep) (rev cs)"
      by (rule takeWhile_snoc_stop) simp
    with True Cons.IH py_split_nonempty[of sep cs] show ?thesis by simp
  next
    case False
    show ?thesis
    proof (cases "sep \<in> set cs")
      case True
      then have "tl (py_split sep cs) \<noteq> []" by (rule py_split_sep)
      then obtain t u us where sp: "py_split sep cs = t # u # us"
        by (cases "py_split sep cs") (auto simp: neq_Nil_conv)
      from True obtain x where "x \<in> set (rev cs)" "\<not> x \<noteq> sep" by auto
      then have "takeWhile (\<lambda>c. c \<noteq> sep) (rev cs @ [c]) = takeWhile (\<lambda>c. c \<noteq> sep) (rev cs)"
        by (rule takeWhile_append1)
      with False sp Cons.IH show ?thesis by simp
    next
      case no: False
      with False have "sep \<notin> set (c # cs)" by auto
      then have a: "py_split sep (c # cs) = [c # cs]" by (rule py_split_no_sep)
      from no False have "\<forall>x \<in> set (rev (c # cs)). x \<noteq> sep" by auto
      then have b: "takeWhile (\<lambda>c. c \<noteq> sep) (rev (c # cs)) = rev (c # cs)"
        by (simp only: takeWhile_eq_all_conv)
      show ?thesis unfolding a b by simp
    qed
  qed
qed

lemma trailing_token_iff: "(last (py_split 0x20 name) = tok) = trailing_token name tok"
proof
  assume "last (py_split 0x20 name) = tok"
  then have tok: "tok = rev (takeWhile (\<lambda>c. c \<noteq> 0x20) (rev name))" by (simp add: last_py_split)
  let ?d = "dropWhile (\<lambda>c. c \<noteq> 0x20) (rev name)"
  have n: "name = rev ?d @ tok" unfolding tok by (simp only: rev_split)
  have t: "0x20 \<notin> set tok" using tok by (auto dest: set_takeWhileD)
  have f: "rev ?d = [] \<or> last (rev ?d) = 0x20"
  proof (cases "?d = []")
    case True
    then show ?thesis by simp
  next
    case False
    then have "\<not> hd ?d \<noteq> 0x20" by (rule hd_dropWhile)
    with False show ?thesis by (simp add: last_rev)
  qed
  from n t f show "trailing_token name tok" unfolding trailing_token_def by blast
next
  assume "trailing_token name tok"
  then obtain front where n: "name = front @ tok" and t: "0x20 \<notin> set tok"
    and f: "front = [] \<or> last front = 0x20"
    unfolding trailing_token_def by blast
  from t have all: "\<forall>x \<in> set (rev tok). x \<noteq> 0x20" by auto
  have e: "takeWhile (\<lambda>c. c \<noteq> 0x20) (rev front) = []"
  proof (cases "front = []")
    case True
    then show ?thesis by simp
  next
    case False
    with f have "hd (rev front) = 0x20" by (simp add: hd_rev)
    with False show ?thesis by (cases "rev front") auto
  qed
  from all have "takeWhile (\<lambda>c. c \<noteq> 0x20) (rev tok @ rev front)
                   = rev tok @ takeWhile (\<lambda>c. c \<noteq> 0x20) (rev front)"
    by (intro takeWhile_append2) auto
  then have "takeWhile (\<lambda>c. c \<noteq> 0x20) (rev tok @ rev front) = rev tok"
    unfolding e by simp
  then have "rev (takeWhile (\<lambda>c. c \<noteq> 0x20) (rev (front @ tok))) = tok" by simp
  then show "last (py_split 0x20 name) = tok" unfolding n last_py_split .
qed

subsection \<open>Case folding\<close>

lemma find_Some_mem: "find P xs = Some x \<Longrightarrow> P x \<and> x \<in> set xs"
  by (induction xs) (auto split: if_splits)

lemma lower_ranges_targets:
  "list_all (\<lambda>(lo, hi, step, target). 0x80 \<le> target \<or> (target = 0x6B \<and> lo = hi)) lower_ranges"
  by code_simp

text \<open>
  A character becomes one character, except U+0130; outside ASCII the result lies outside
  ASCII too, except for the Kelvin sign, which becomes \<open>k\<close>.
\<close>

lemma py_lower_char_cases:
  "(c < 0x80 \<and> py_lower_char c = [if 0x41 \<le> c \<and> c \<le> 0x5A then c + 0x20 else c])
   \<or> (c = 0x130 \<and> py_lower_char c = [0x69, 0x307])
   \<or> (0x80 \<le> c \<and> (\<exists>d. py_lower_char c = [d] \<and> (0x80 \<le> d \<or> d = 0x6B)))"
proof (cases "c < 0x80")
  case True
  then show ?thesis by (simp add: py_lower_char_def)
next
  case big: False
  show ?thesis
  proof (cases "c = 0x130")
    case True
    then show ?thesis by (simp add: py_lower_char_def)
  next
    case False
    let ?P = "\<lambda>(lo, hi, step, target). lo \<le> c \<and> c \<le> hi \<and> (c - lo) mod step = 0"
    show ?thesis
    proof (cases "find ?P lower_ranges")
      case None
      with big False show ?thesis by (simp add: py_lower_char_def)
    next
      case (Some e)
      obtain lo hi step target where e: "e = (lo, hi, step, target)" by (cases e) auto
      from find_Some_mem[OF Some] have "e \<in> set lower_ranges" and "?P e"
        by simp_all
      with e lower_ranges_targets
      have t: "0x80 \<le> target \<or> (target = 0x6B \<and> lo = hi)" and m: "lo \<le> c" "c \<le> hi"
        by (auto simp: list_all_iff)
      from big False Some e have "py_lower_char c = [target + (c - lo)]"
        by (simp add: py_lower_char_def)
      moreover from t m have "0x80 \<le> target + (c - lo) \<or> target + (c - lo) = 0x6B" by auto
      ultimately show ?thesis using big by auto
    qed
  qed
qed

lemma heading_letters: "set (str ''heading '') = {0x68, 0x65, 0x61, 0x64, 0x69, 0x6E, 0x67, 0x20}"
  by (simp add: str_def)

lemma lower_to_letter:
  assumes "q \<in> set (str ''heading '')"
  shows "(py_lower_char c = [q]) = same_letter c q"
  using assms py_lower_char_cases[of c] unfolding heading_letters same_letter_def
  by (auto split: if_splits)

lemma lower_prefix:
  assumes "set p \<subseteq> set (str ''heading '')" and "p = [] \<or> last p \<noteq> 0x69"
  shows "prefix p (py_lower s) = (\<exists>w rest. s = w @ rest \<and> list_all2 same_letter w p)"
  using assms
proof (induction p arbitrary: s)
  case Nil
  then show ?case by simp
next
  case (Cons q p)
  from Cons.prems have q: "q \<in> set (str ''heading '')" and p: "set p \<subseteq> set (str ''heading '')"
    by auto
  from Cons.prems(2) have lp: "p = [] \<or> last p \<noteq> 0x69" by (cases p) auto
  note IH = Cons.IH[OF p lp]
  show ?case
  proof (cases s)
    case Nil
    then show ?thesis by (simp add: py_lower_def)
  next
    case (Cons c cs)
    have rhs: "(\<exists>w rest. c # cs = w @ rest \<and> list_all2 same_letter w (q # p))
                 = (same_letter c q \<and> (\<exists>w rest. cs = w @ rest \<and> list_all2 same_letter w p))"
      (is "?A = ?B")
    proof
      assume ?A
      then obtain w rest where w: "c # cs = w @ rest" "list_all2 same_letter w (q # p)" by blast
      then obtain x xs where x: "w = x # xs" "same_letter x q" "list_all2 same_letter xs p"
        by (auto simp: list_all2_Cons2)
      with w show ?B by auto
    next
      assume ?B
      then obtain w rest where "same_letter c q" "cs = w @ rest" "list_all2 same_letter w p"
        by blast
      then have "c # cs = (c # w) @ rest \<and> list_all2 same_letter (c # w) (q # p)" by simp
      then show ?A by blast
    qed
    have lhs: "prefix (q # p) (py_lower (c # cs)) = (same_letter c q \<and> prefix p (py_lower cs))"
    proof -
      from py_lower_char_cases[of c]
      consider d where "py_lower_char c = [d]" | "c = 0x130" "py_lower_char c = [0x69, 0x307]"
        by blast
      then show ?thesis
      proof cases
        case 1
        with lower_to_letter[OF q, of c] have "(d = q) = same_letter c q" by simp
        with 1 show ?thesis by (auto simp: py_lower_def)
      next
        case 2
        from 2(2) lower_to_letter[OF q, of c] have ns: "\<not> same_letter c q" by simp
        have "\<not> prefix (q # p) (0x69 # 0x307 # py_lower cs)"
        proof (cases p)
          case Nil
          with Cons.prems(2) show ?thesis by simp
        next
          case (Cons q' p')
          with p have "q' \<in> set (str ''heading '')" by simp
          then have "q' \<noteq> 0x307" unfolding heading_letters by auto
          with Cons show ?thesis by simp
        qed
        with 2 ns show ?thesis by (simp add: py_lower_def)
      qed
    qed
    from lhs rhs IH[of cs] Cons show ?thesis by simp
  qed
qed

lemma names_heading_iff:
  "prefix (str ''heading '') (py_lower (py_strip name)) = names_heading name"
proof -
  have "prefix (str ''heading '') (py_lower (py_strip name))
          = (\<exists>w rest. py_strip name = w @ rest \<and> list_all2 same_letter w (str ''heading ''))"
    by (rule lower_prefix) (simp_all add: str_def)
  then show ?thesis unfolding names_heading_def py_strip_iff .
qed

subsection \<open>Integer literals\<close>

lemma no_digit: "digit_val 0x5F = None" "digit_val 0x2B = None" "digit_val 0x2D = None"
  by code_simp+

lemma digits_val_literal:
  "decimal_literal pre a \<Longrightarrow> digits_val a s = Some v \<Longrightarrow> decimal_literal (pre @ s) v"
proof (induction a s arbitrary: pre rule: digits_val.induct)
  case (1 acc)
  then show ?case by simp
next
  case (2 acc c cs)
  show ?case
  proof (cases "c = 0x5F")
    case True
    with "2.prems"(2) obtain d ds x where cs: "cs = d # ds" and x: "digit_val d = Some x"
      and v: "digits_val (acc * 10 + x) ds = Some v"
      by (auto split: list.splits option.splits)
    from "2.prems"(1) x have "decimal_literal (pre @ [0x5F, d]) (10 * acc + x)"
      by (rule decimal_literal.underscore)
    then have "decimal_literal (pre @ [0x5F, d]) (acc * 10 + x)" by (simp add: mult.commute)
    from "2.IH"(1)[OF True cs x this v] True cs show ?thesis by simp
  next
    case False
    with "2.prems"(2) obtain x where x: "digit_val c = Some x"
      and v: "digits_val (acc * 10 + x) cs = Some v"
      by (auto split: option.splits)
    from "2.prems"(1) x have "decimal_literal (pre @ [c]) (10 * acc + x)"
      by (rule decimal_literal.next_digit)
    then have "decimal_literal (pre @ [c]) (acc * 10 + x)" by (simp add: mult.commute)
    from "2.IH"(2)[OF False x this v] show ?thesis by simp
  qed
qed

lemma digits_val_snoc:
  "digits_val a s = Some v \<Longrightarrow> digit_val c = Some d
     \<Longrightarrow> digits_val a (s @ [c]) = Some (10 * v + d)
         \<and> digits_val a (s @ [0x5F, c]) = Some (10 * v + d)"
proof (induction a s rule: digits_val.induct)
  case (1 acc)
  from "1.prems"(2) no_digit(1) have "c \<noteq> 0x5F" by auto
  with 1 show ?case by (simp add: mult.commute)
next
  case (2 acc x xs)
  show ?case
  proof (cases "x = 0x5F")
    case True
    with "2.prems"(1) obtain y ys w where xs: "xs = y # ys" and w: "digit_val y = Some w"
      and v: "digits_val (acc * 10 + w) ys = Some v"
      by (auto split: list.splits option.splits)
    from "2.IH"(1)[OF True xs w v "2.prems"(2)] True xs w show ?thesis by simp
  next
    case False
    with "2.prems"(1) obtain w where w: "digit_val x = Some w"
      and v: "digits_val (acc * 10 + w) xs = Some v"
      by (auto split: option.splits)
    from "2.IH"(2)[OF False w v "2.prems"(2)] False w show ?thesis by simp
  qed
qed

lemma unsigned_val_iff: "(unsigned_val s = Some v) = decimal_literal s v"
proof
  assume "unsigned_val s = Some v"
  then obtain d ds a where s: "s = d # ds" and a: "digit_val d = Some a"
    and v: "digits_val a ds = Some v"
    by (auto simp: unsigned_val_def split: list.splits option.splits)
  from a have "decimal_literal [d] a" by (rule decimal_literal.digit)
  from digits_val_literal[OF this v] s show "decimal_literal s v" by simp
next
  assume "decimal_literal s v"
  then show "unsigned_val s = Some v"
  proof (induction rule: decimal_literal.induct)
    case (digit c d)
    then show ?case by (simp add: unsigned_val_def)
  next
    case (next_digit s v c d)
    from next_digit.IH obtain x xs a where s: "s = x # xs" and a: "digit_val x = Some a"
      and v: "digits_val a xs = Some v"
      by (auto simp: unsigned_val_def split: list.splits option.splits)
    from digits_val_snoc[OF v next_digit.hyps(2)] s a show ?case
      by (simp add: unsigned_val_def)
  next
    case (underscore s v c d)
    from underscore.IH obtain x xs a where s: "s = x # xs" and a: "digit_val x = Some a"
      and v: "digits_val a xs = Some v"
      by (auto simp: unsigned_val_def split: list.splits option.splits)
    from digits_val_snoc[OF v underscore.hyps(2)] s a show ?case
      by (simp add: unsigned_val_def)
  qed
qed

lemma literal_starts_with_digit:
  "decimal_literal s v \<Longrightarrow> \<exists>c cs. s = c # cs \<and> digit_val c \<noteq> None"
  unfolding unsigned_val_iff[symmetric]
  by (auto simp: unsigned_val_def split: list.splits option.splits)

lemma py_int_iff: "(py_int tok = Some n) = integer_text tok n"
proof
  assume pi: "py_int tok = Some n"
  then obtain c cs where core: "int_strip tok = c # cs"
    by (auto simp: py_int_def split: list.splits)
  let ?digits = "if c = 0x2D \<or> c = 0x2B then cs else c # cs"
  from pi core have cnt: "\<not> max_str_digits < count_digits ?digits"
    by (auto simp: py_int_def Let_def split: if_splits)
  with pi core obtain v where v: "unsigned_val ?digits = Some v"
    and n: "n = (if c = 0x2D then - int v else int v)"
    by (auto simp: py_int_def Let_def split: if_splits)
  from core have "trims_to is_int_space tok (c # cs)" by (simp add: int_strip_iff)
  moreover from v have "decimal_literal ?digits v" by (simp add: unsigned_val_iff)
  moreover from cnt have "length (filter (\<lambda>c. digit_val c \<noteq> None) ?digits) \<le> 4300"
    by (simp add: max_str_digits_def count_digits_def)
  moreover from n have "c # cs = ?digits \<and> n = int v
       \<or> c # cs = 0x2B # ?digits \<and> n = int v
       \<or> c # cs = 0x2D # ?digits \<and> n = - int v"
    by auto
  ultimately show "integer_text tok n" unfolding integer_text_def by blast
next
  assume "integer_text tok n"
  then obtain core digits v where core: "trims_to is_int_space tok core"
    and lit: "decimal_literal digits v"
    and cnt: "length (filter (\<lambda>c. digit_val c \<noteq> None) digits) \<le> 4300"
    and shape: "core = digits \<and> n = int v \<or> core = 0x2B # digits \<and> n = int v
                 \<or> core = 0x2D # digits \<and> n = - int v"
    unfolding integer_text_def by blast
  from core have strip: "int_strip tok = core" by (simp add: int_strip_iff)
  from lit have u: "unsigned_val digits = Some v" by (simp add: unsigned_val_iff)
  from literal_starts_with_digit[OF lit] obtain d ds where d: "digits = d # ds"
    and dv: "digit_val d \<noteq> None" by blast
  from dv no_digit have sign: "d \<noteq> 0x2B" "d \<noteq> 0x2D" by auto
  from cnt have c: "\<not> max_str_digits < count_digits digits"
    by (simp add: max_str_digits_def count_digits_def)
  from shape show "py_int tok = Some n"
  proof (elim disjE conjE)
    assume "core = digits" "n = int v"
    with strip d sign u c show ?thesis by (simp add: py_int_def)
  next
    assume "core = 0x2B # digits" "n = int v"
    with strip u c show ?thesis by (simp add: py_int_def)
  next
    assume "core = 0x2D # digits" "n = - int v"
    with strip u c show ?thesis by (simp add: py_int_def)
  qed
qed

subsection \<open>The classification\<close>

lemma heading_style_name_iff:
  "(name \<noteq> [] \<and> prefix (str ''heading '') (py_lower (py_strip name))
      \<and> py_int (last (py_split 0x20 name)) = Some n \<and> 1 \<le> n \<and> n \<le> L)
     = heading_style_name name L n"
proof -
  have tok: "(\<exists>tok. trailing_token name tok \<and> integer_text tok n)
               = (py_int (last (py_split 0x20 name)) = Some n)"
    unfolding trailing_token_iff[symmetric] py_int_iff[symmetric] by auto
  have "\<not> prefix (str ''heading '') (py_lower (py_strip []))"
    by (simp add: py_lower_def py_strip_def str_def)
  then have ne: "prefix (str ''heading '') (py_lower (py_strip name)) \<Longrightarrow> name \<noteq> []"
    by auto
  show ?thesis
    unfolding heading_style_name_def tok names_heading_iff[symmetric] using ne by auto
qed

text \<open>
  Claim C9. A paragraph is classified as a heading of level \<open>n\<close> exactly when its style
  name, trimmed of white space at both ends, begins with \<open>heading\<close> and a space in capital
  or small letters, and what follows the last space of the style name (as it is stored,
  not trimmed) reads as the integer \<open>n\<close> with \<open>1 \<le> n \<le> L\<close>: white space around it aside,
  an optional sign and decimal digits of any script, single underscores allowed between
  digits, no more than 4300 digits. The text returned is the text of the paragraph. In
  every other case (no style name, another beginning, a last token that is no integer, a
  level out of range) the paragraph is not a heading.
\<close>

theorem is_heading_style_iff:
  "(is_heading_style p L = Some (n, t))
     = (\<exists>name. style_name p = Some name \<and> heading_style_name name L n \<and> t = para_text p)
   \<and> (is_heading_style p L = None)
     = (\<not> (\<exists>name m. style_name p = Some name \<and> heading_style_name name L m))"
proof (cases "style_name p")
  case None
  then show ?thesis by (simp add: is_heading_style_def)
next
  case (Some name)
  show ?thesis
  proof (cases "py_int (last (py_split 0x20 name))")
    case None
    with Some have "is_heading_style p L = None" by (simp add: is_heading_style_def)
    moreover from None have "\<not> heading_style_name name L m" for m
      unfolding heading_style_name_iff[symmetric] by simp
    ultimately show ?thesis using \<open>style_name p = Some name\<close> by simp
  next
    case (Some k)
    note k = this
    have h: "heading_style_name name L m
               = (m = k \<and> name \<noteq> [] \<and> prefix (str ''heading '') (py_lower (py_strip name))
                  \<and> 1 \<le> k \<and> k \<le> L)" for m
      unfolding heading_style_name_iff[symmetric] k by auto
    have ex1: "(\<exists>nm. style_name p = Some nm \<and> heading_style_name nm L n \<and> t = para_text p)
                 = (heading_style_name name L n \<and> t = para_text p)"
      and ex2: "(\<exists>nm m. style_name p = Some nm \<and> heading_style_name nm L m)
                 = (\<exists>m. heading_style_name name L m)"
      using \<open>style_name p = Some name\<close> by auto
    from \<open>style_name p = Some name\<close> k show ?thesis
      unfolding ex1 ex2 h by (auto simp: is_heading_style_def)
  qed
qed

theorem is_heading_style_iff_witness:
  "is_heading_style \<lparr>style_name = Some (str ''Heading 2''), para_text = str ''X''\<rparr> 6
     = Some (2, str ''X'')
   \<and> heading_style_name (str ''Heading 2'') 6 2
   \<and> heading_style_name (str '' heading +1'') 6 1
   \<and> heading_style_name ([0xA0] @ str ''HEADING '' @ [0x663, 0x09]) 6 3
   \<and> \<not> (\<exists>m. heading_style_name (str ''Heading 7'') 6 m)
   \<and> \<not> (\<exists>m. heading_style_name (str ''Heading 1x'') 6 m)
   \<and> \<not> (\<exists>m. heading_style_name (str ''Heading 1 '') 6 m)
   \<and> \<not> (\<exists>m. heading_style_name (str ''Heading 1'' @ [0x1C]) 6 m)
   \<and> \<not> (\<exists>m. heading_style_name (str ''Heading'' @ [0x09] @ str ''1'') 6 m)
   \<and> \<not> (\<exists>m. heading_style_name (str ''Title 1'') 6 m)
   \<and> is_heading_style \<lparr>style_name = None, para_text = str ''X''\<rparr> 6 = None"
proof -
  let ?p = "\<lambda>name. \<lparr>style_name = Some name, para_text = str ''X''\<rparr>"
  have e1: "is_heading_style (?p (str ''Heading 2'')) 6 = Some (2, str ''X'')"
    and e2: "is_heading_style (?p (str '' heading +1'')) 6 = Some (1, str ''X'')"
    and e3: "is_heading_style (?p ([0xA0] @ str ''HEADING '' @ [0x663, 0x09])) 6
               = Some (3, str ''X'')"
    and n1: "is_heading_style (?p (str ''Heading 7'')) 6 = None"
    and n2: "is_heading_style (?p (str ''Heading 1x'')) 6 = None"
    and n3: "is_heading_style (?p (str ''Heading 1 '')) 6 = None"
    and n4: "is_heading_style (?p (str ''Heading'' @ [0x09] @ str ''1'')) 6 = None"
    and n6: "is_heading_style (?p (str ''Heading 1'' @ [0x1C])) 6 = None"
    and n5: "is_heading_style (?p (str ''Title 1'')) 6 = None"
    by code_simp+
  from is_heading_style_iff[of "?p (str ''Heading 2'')" 6 2 "str ''X''"] e1
  have s1: "heading_style_name (str ''Heading 2'') 6 2" by simp
  from is_heading_style_iff[of "?p (str '' heading +1'')" 6 1 "str ''X''"] e2
  have s2: "heading_style_name (str '' heading +1'') 6 1" by simp
  from is_heading_style_iff[of "?p ([0xA0] @ str ''HEADING '' @ [0x663, 0x09])" 6 3 "str ''X''"] e3
  have s3: "heading_style_name ([0xA0] @ str ''HEADING '' @ [0x663, 0x09]) 6 3" by simp
  from is_heading_style_iff[of "?p (str ''Heading 7'')" 6 0 "[]"] n1
  have t1: "\<not> (\<exists>m. heading_style_name (str ''Heading 7'') 6 m)" by simp
  from is_heading_style_iff[of "?p (str ''Heading 1x'')" 6 0 "[]"] n2
  have t2: "\<not> (\<exists>m. heading_style_name (str ''Heading 1x'') 6 m)" by simp
  from is_heading_style_iff[of "?p (str ''Heading 1 '')" 6 0 "[]"] n3
  have t3: "\<not> (\<exists>m. heading_style_name (str ''Heading 1 '') 6 m)" by simp
  from is_heading_style_iff[of "?p (str ''Heading'' @ [0x09] @ str ''1'')" 6 0 "[]"] n4
  have t4: "\<not> (\<exists>m. heading_style_name (str ''Heading'' @ [0x09] @ str ''1'') 6 m)" by simp
  from is_heading_style_iff[of "?p (str ''Heading 1'' @ [0x1C])" 6 0 "[]"] n6
  have t7: "\<not> (\<exists>m. heading_style_name (str ''Heading 1'' @ [0x1C]) 6 m)" by simp
  from is_heading_style_iff[of "?p (str ''Title 1'')" 6 0 "[]"] n5
  have t5: "\<not> (\<exists>m. heading_style_name (str ''Title 1'') 6 m)" by simp
  have t6: "is_heading_style \<lparr>style_name = None, para_text = str ''X''\<rparr> 6 = None"
    by code_simp
  from e1 s1 s2 s3 t1 t2 t3 t7 t4 t5 t6 show ?thesis by (simp only: simp_thms)
qed
section \<open>Properties of the extraction\<close>

lemma strip_PREAMBLE: "py_strip PREAMBLE = PREAMBLE"
  by code_simp

lemma heading_of_level: "heading_of L e = Some (l, t) \<Longrightarrow> 1 \<le> l"
  by (auto simp: heading_of_def is_heading_style_def split: if_splits option.splits)

lemma scan_inv_init: "scan_inv L [] (scan_init True)"
  by (simp add: scan_inv_def scan_init_def elements_of_def)

lemma elements_of_snoc:
  "elements_of (secs @ [s]) = elements_of secs @ (case sec_elements s of None \<Rightarrow> [] | Some es \<Rightarrow> es)"
  by (simp add: elements_of_def)

lemma closed_wf:
  assumes "scan_inv L xs st"
  shows "\<forall>s \<in> set (close_section True st). wf_section L s"
    and "elements_of (close_section True st) = xs"
    and "\<forall>i < length (close_section True st). sec_level (close_section True st ! i) = 0 \<longrightarrow> i = 0"
proof -
  from assms obtain cur where cur: "current_section_elements st = Some cur"
    by (auto simp: scan_inv_def split: option.splits)
  note inv = assms[unfolded scan_inv_def cur, simplified]
  show "\<forall>s \<in> set (close_section True st). wf_section L s"
  proof (cases "snd (current_heading_info st) = 0")
    case True
    then show ?thesis using inv cur
      by (auto simp: close_section_def wf_section_def strip_PREAMBLE hd_in_set
               dest: list.set_sel(2))
  next
    case False
    then have "0 < snd (current_heading_info st)"
      using inv heading_of_level[of L "hd cur"] by auto
    then show ?thesis using inv cur False
      by (auto simp: close_section_def wf_section_def)
  qed
  show "elements_of (close_section True st) = xs"
  proof (cases "snd (current_heading_info st) = 0")
    case True
    then show ?thesis using inv cur
      by (auto simp: close_section_def elements_of_snoc elements_of_def)
  next
    case False
    then have "0 < snd (current_heading_info st)"
      using inv heading_of_level[of L "hd cur"] by auto
    then show ?thesis using inv cur
      by (auto simp: close_section_def elements_of_snoc)
  qed
  show "\<forall>i < length (close_section True st). sec_level (close_section True st ! i) = 0 \<longrightarrow> i = 0"
  proof (cases "snd (current_heading_info st) = 0")
    case True
    then show ?thesis using inv cur
      by (auto simp: close_section_def)
  next
    case False
    then show ?thesis using inv cur
      by (auto simp: close_section_def nth_append)
  qed
qed

lemma scan_inv_step:
  assumes "scan_inv L xs st"
  shows "scan_inv L (xs @ [e]) (scan_element L True st e)"
proof -
  from assms obtain cur where cur: "current_section_elements st = Some cur"
    by (auto simp: scan_inv_def split: option.splits)
  note inv = assms[unfolded scan_inv_def cur, simplified]
  show ?thesis
  proof (cases "heading_of L e")
    case None
    have st': "scan_element L True st e = st\<lparr>current_section_elements := Some (cur @ [e])\<rparr>"
      using None cur by (simp add: scan_element_def)
    show ?thesis
    proof (cases "snd (current_heading_info st) = 0")
      case True
      then show ?thesis using inv None unfolding st' scan_inv_def by auto
    next
      case False
      then show ?thesis using inv None unfolding st' scan_inv_def
        by (cases cur) auto
    qed
  next
    case (Some lt)
    obtain l t where lt: "lt = (l, t)" by (cases lt)
    have l: "1 \<le> l" using Some lt heading_of_level by blast
    have st': "scan_element L True st e =
        \<lparr>sections = close_section True st, current_section_elements = Some [e],
         current_heading_info = (t, l)\<rparr>"
      using Some lt by (simp add: scan_element_def)
    show ?thesis
      unfolding st' scan_inv_def
      using closed_wf[OF assms] Some lt l by auto
  qed
qed

lemma scan_inv_foldl:
  "scan_inv L body (foldl (scan_element L True) (scan_init True) body)"
proof (induction body rule: rev_induct)
  case Nil
  show ?case by (simp add: scan_inv_init)
next
  case (snoc e body)
  then show ?case by (simp add: scan_inv_step)
qed

lemma wf_section_truthy: "wf_section L s \<Longrightarrow> truthy (sec_elements s)"
  by (auto simp: wf_section_def split: option.splits)

lemma parse_include:
  "parse_document_structure (Some body) L True
     = Some (close_section True (foldl (scan_element L True) (scan_init True) body))"
proof -
  let ?secs = "close_section True (foldl (scan_element L True) (scan_init True) body)"
  have "\<forall>s \<in> set ?secs. truthy (sec_elements s)"
    using closed_wf(1)[OF scan_inv_foldl] wf_section_truthy by blast
  then show ?thesis
    by (cases ?secs) (auto simp: parse_document_structure_def Let_def)
qed

lemma parse_sections:
  assumes "parse_document_structure (Some body) L True = Some secs"
  shows "\<forall>s \<in> set secs. wf_section L s"
    and "elements_of secs = body"
    and "\<forall>i < length secs. sec_level (secs ! i) = 0 \<longrightarrow> i = 0"
  using assms closed_wf[OF scan_inv_foldl, of L body] unfolding parse_include by auto

section \<open>The source section map\<close>

lemma build_source_map_snoc:
  "build_source_map (secs @ [s]) = map_step (build_source_map secs) s"
  by (simp add: build_source_map_def)

lemma build_source_map_Nil: "build_source_map [] = map_init"
  by (simp add: build_source_map_def)

lemma find_snoc:
  "find P (xs @ [x]) = (case find P xs of Some y \<Rightarrow> Some y | None \<Rightarrow> if P x then Some x else None)"
  by (induction xs) auto

lemma seen_keys:
  "headings_seen (build_source_map secs) = set (map fst (source_sections_map (build_source_map secs)))"
proof (induction secs rule: rev_induct)
  case Nil
  show ?case by (simp add: build_source_map_Nil map_init_def)
next
  case (snoc s secs)
  then show ?case
    by (auto simp: build_source_map_snoc map_step_def Let_def dom_update)
qed

lemma map_of_source_map:
  "map_of (source_sections_map (build_source_map secs)) h =
     (if h = PREAMBLE then None else find (\<lambda>s. sec_text s = h) secs)"
proof (induction secs rule: rev_induct)
  case Nil
  show ?case by (simp add: build_source_map_Nil map_init_def)
next
  case (snoc s secs)
  have seen: "\<And>k. k \<in> headings_seen (build_source_map secs)
       \<longleftrightarrow> map_of (source_sections_map (build_source_map secs)) k \<noteq> None"
    by (simp add: seen_keys map_of_eq_None_iff)
  show ?case
    using snoc seen
    by (auto simp: build_source_map_snoc map_step_def Let_def update_conv' find_snoc
             split: option.splits if_splits)
qed

lemma distinct_keys: "distinct (map fst (source_sections_map (build_source_map secs)))"
proof (induction secs rule: rev_induct)
  case Nil
  show ?case by (simp add: build_source_map_Nil map_init_def)
next
  case (snoc s secs)
  then show ?case
    by (auto simp: build_source_map_snoc map_step_def Let_def distinct_update)
qed

lemma find_text: "find (\<lambda>s. sec_text s = h) secs = Some s \<Longrightarrow> sec_text s = h \<and> s \<in> set secs"
  by (induction secs) (auto split: if_splits)

lemma map_key_text:
  assumes "map_of (source_sections_map (build_source_map secs)) h = Some s"
  shows "sec_text s = h" and "h \<noteq> PREAMBLE" and "s \<in> set secs"
  using assms by (auto simp: map_of_source_map dest: find_text split: if_splits)

lemma preamble_of_map:
  "preamble_section (build_source_map secs) = find (\<lambda>s. sec_text s = PREAMBLE) (rev secs)"
proof (induction secs rule: rev_induct)
  case Nil
  show ?case by (simp add: build_source_map_Nil map_init_def)
next
  case (snoc s secs)
  then show ?case
    by (auto simp: build_source_map_snoc map_step_def Let_def)
qed

lemma keyed_source_map: "keyed (source_sections_map (build_source_map secs))"
  unfolding keyed_def using map_key_text by blast

lemma in_schedule:
  "s \<in> set (schedule smap P hs) \<longleftrightarrow> (\<exists>h \<in> set hs. h \<notin> P \<and> map_of smap h = Some s)"
proof (induction hs arbitrary: P)
  case Nil
  show ?case by simp
next
  case (Cons a hs)
  show ?case
  proof (cases "map_of smap a")
    case None
    then show ?thesis using Cons[of P] by auto
  next
    case (Some t)
    show ?thesis
    proof (cases "a \<in> P")
      case True
      then show ?thesis using Some Cons[of P] by auto
    next
      case False
      have "s \<in> set (schedule smap P (a # hs)) \<longleftrightarrow>
              s = t \<or> (\<exists>h \<in> set hs. h \<notin> insert a P \<and> map_of smap h = Some s)"
        using Some False Cons[of "insert a P"] by simp
      also have "\<dots> \<longleftrightarrow> (\<exists>h \<in> set (a # hs). h \<notin> P \<and> map_of smap h = Some s)"
        (is "?L \<longleftrightarrow> ?R")
      proof
        assume ?L
        then show ?R using Some False by auto
      next
        assume ?R
        then obtain h where h: "h \<in> set (a # hs)" "h \<notin> P" "map_of smap h = Some s"
          by auto
        show ?L
        proof (cases "h = a")
          case True
          then show ?thesis using h Some by simp
        next
          case neq: False
          then show ?thesis using h by auto
        qed
      qed
      finally show ?thesis .
    qed
  qed
qed


lemma distinct_schedule:
  "keyed smap \<Longrightarrow> distinct (map sec_text (schedule smap P hs))"
proof (induction hs arbitrary: P)
  case Nil
  show ?case by simp
next
  case (Cons h hs)
  show ?case
  proof (cases "map_of smap h")
    case None
    with Cons show ?thesis by simp
  next
    case (Some s)
    have "sec_text s \<noteq> sec_text s'" if "s' \<in> set (schedule smap (insert h P) hs)" for s'
    proof -
      from that obtain h' where "h' \<noteq> h" "map_of smap h' = Some s'"
        unfolding in_schedule by auto
      then show ?thesis using Cons.prems Some unfolding keyed_def by metis
    qed
    then have "sec_text s \<notin> sec_text ` set (schedule smap (insert h P) hs)"
      by auto
    with Cons Some show ?thesis by simp
  qed
qed

lemma those_Some: "those xs = Some ys \<longleftrightarrow> xs = map Some ys"
  by (induction xs arbitrary: ys) (auto split: option.splits)

lemma lookup_all_Some:
  "lookup_all smap hs = Some ss \<longleftrightarrow> map (map_of smap) hs = map Some ss"
  by (simp add: lookup_all_def those_Some)

lemma lookup_all_nth:
  assumes "lookup_all smap hs = Some ss"
  shows "length ss = length hs" and "\<And>i. i < length hs \<Longrightarrow> map_of smap (hs ! i) = Some (ss ! i)"
proof -
  from assms have eq: "map (map_of smap) hs = map Some ss"
    by (simp add: lookup_all_Some)
  from arg_cong[OF eq, of length] show len: "length ss = length hs" by simp
  fix i assume i: "i < length hs"
  from arg_cong[OF eq, of "\<lambda>xs. xs ! i"] i len
  show "map_of smap (hs ! i) = Some (ss ! i)" by simp
qed

lemma lookup_all_texts:
  assumes "keyed smap" and "lookup_all smap hs = Some ss"
  shows "map sec_text ss = hs"
proof (rule nth_equalityI)
  show "length (map sec_text ss) = length hs"
    using lookup_all_nth(1)[OF assms(2)] by simp
next
  fix i assume "i < length (map sec_text ss)"
  then have i: "i < length hs" using lookup_all_nth(1)[OF assms(2)] by simp
  from lookup_all_nth(2)[OF assms(2) i] assms(1)
  have "sec_text (ss ! i) = hs ! i" unfolding keyed_def by blast
  then show "map sec_text ss ! i = hs ! i"
    using i lookup_all_nth(1)[OF assms(2)] by simp
qed

lemma lookup_all_defined:
  "set hs \<subseteq> fst ` set smap \<Longrightarrow> \<exists>ss. lookup_all smap hs = Some ss"
proof (induction hs)
  case Nil
  show ?case by (simp add: lookup_all_def)
next
  case (Cons h hs)
  then obtain ss where ss: "lookup_all smap hs = Some ss" by auto
  have "map_of smap h \<noteq> None"
    using Cons.prems by (simp add: map_of_eq_None_iff)
  then obtain s where "map_of smap h = Some s" by auto
  with ss show ?case by (simp add: lookup_all_def)
qed

lemma unmatched_props:
  assumes "set_iteration (set_order ev)" and "distinct (map fst smap)"
  shows "distinct (unmatched_in_source_headings ev smap target)"
    and "set (unmatched_in_source_headings ev smap target) = fst ` set smap - set target"
proof -
  let ?xs = "filter (\<lambda>h. h \<notin> set target) (map fst smap)"
  have d: "distinct ?xs" using assms(2) by simp
  with assms(1) have "distinct (set_order ev ?xs)" "set (set_order ev ?xs) = set ?xs"
    unfolding set_iteration_def by blast+
  then show "distinct (unmatched_in_source_headings ev smap target)"
    and "set (unmatched_in_source_headings ev smap target) = fst ` set smap - set target"
    unfolding unmatched_in_source_headings_def by auto
qed

section \<open>The writing order\<close>

lemma plan_sections_result:
  assumes ord: "set_iteration (set_order ev)"
  obtains ss where
    "lookup_all (source_sections_map (build_source_map secs))
       (unmatched_in_source_headings ev (source_sections_map (build_source_map secs)) target) = Some ss"
    "map sec_text ss =
       unmatched_in_source_headings ev (source_sections_map (build_source_map secs)) target"
    "snd (plan_sections ev a (build_source_map secs) target) =
       (if missing_in_source (source_sections_map (build_source_map secs)) target \<noteq> []
           \<and> arg_missing a = Error
        then Inl MissingHeadings
        else Inr (preamble_first (preamble_section (build_source_map secs))
                  @ schedule (source_sections_map (build_source_map secs)) {} target
                  @ (if arg_unmatched a = Delete then [] else ss)))"
proof -
  let ?st = "build_source_map secs"
  let ?smap = "source_sections_map ?st"
  let ?un = "unmatched_in_source_headings ev ?smap target"
  have "set ?un \<subseteq> fst ` set ?smap"
    using unmatched_props(2)[OF ord distinct_keys, of secs target] by auto
  then obtain ss where ss: "lookup_all ?smap ?un = Some ss"
    using lookup_all_defined by blast
  have texts: "map sec_text ss = ?un"
    using lookup_all_texts[OF keyed_source_map ss] .
  have nil: "?un = [] \<Longrightarrow> ss = []"
    using texts by auto
  have "snd (plan_sections ev a ?st target) =
       (if missing_in_source ?smap target \<noteq> [] \<and> arg_missing a = Error
        then Inl MissingHeadings
        else Inr (preamble_first (preamble_section ?st) @ schedule ?smap {} target
                  @ (if arg_unmatched a = Delete then [] else ss)))"
    using ss nil by (auto simp: plan_sections_def Let_def)
  with ss texts show thesis using that by blast
qed

lemma preamble_first_props:
  "length (preamble_first (preamble_section (build_source_map secs))) \<le> 1"
  "s \<in> set (preamble_first (preamble_section (build_source_map secs))) \<Longrightarrow>
     sec_text s = PREAMBLE \<and> truthy (sec_elements s) \<and> s \<in> set (rev secs)"
proof -
  show "length (preamble_first (preamble_section (build_source_map secs))) \<le> 1"
    by (simp add: preamble_first_def split: option.splits)
  assume "s \<in> set (preamble_first (preamble_section (build_source_map secs)))"
  then have "preamble_section (build_source_map secs) = Some s" and t: "truthy (sec_elements s)"
    by (auto simp: preamble_first_def split: option.splits if_splits)
  then have "find (\<lambda>s. sec_text s = PREAMBLE) (rev secs) = Some s"
    by (simp add: preamble_of_map)
  from find_text[OF this] t
  show "sec_text s = PREAMBLE \<and> truthy (sec_elements s) \<and> s \<in> set (rev secs)"
    by simp
qed

text \<open>
  Claim C10. In every run of the reconciliation that reaches the writing order, no section
  is scheduled twice: the scheduled sections are pairwise different and even carry
  pairwise different heading texts; a section with the preamble marker can only stand at
  the first place; the order consists of at most one preamble section, then the sections
  matched through the outline (each once, however often its heading occurs there), then
  the appended sections; and no heading text of a matched section is the heading text of
  an appended one.
\<close>

theorem no_section_scheduled_twice:
  assumes "set_iteration (set_order ev)"
    and "plan_sections ev a (build_source_map secs) target = (log, Inr plan)"
  shows "distinct (map sec_text plan) \<and> distinct plan
       \<and> (\<forall>i < length plan. sec_text (plan ! i) = PREAMBLE \<longrightarrow> i = 0)
       \<and> (\<exists>pre matched appended.
             plan = pre @ matched @ appended
           \<and> length pre \<le> 1
           \<and> (\<forall>s \<in> set pre. sec_text s = PREAMBLE)
           \<and> matched = schedule (source_sections_map (build_source_map secs)) {} target
           \<and> (\<forall>s \<in> set matched. sec_text s \<in> set target)
           \<and> (\<forall>s \<in> set appended. sec_text s \<notin> set target)
           \<and> sec_text ` set matched \<inter> sec_text ` set appended = {})"
proof -
  let ?st = "build_source_map secs"
  let ?smap = "source_sections_map ?st"
  let ?un = "unmatched_in_source_headings ev ?smap target"
  let ?pre = "preamble_first (preamble_section ?st)"
  let ?matched = "schedule ?smap {} target"
  obtain ss where ss: "lookup_all ?smap ?un = Some ss" "map sec_text ss = ?un"
    and res: "snd (plan_sections ev a ?st target) =
       (if missing_in_source ?smap target \<noteq> [] \<and> arg_missing a = Error
        then Inl MissingHeadings
        else Inr (?pre @ ?matched @ (if arg_unmatched a = Delete then [] else ss)))"
    using plan_sections_result[OF assms(1)] by blast
  define appended where "appended = (if arg_unmatched a = Delete then [] else ss)"
  have plan: "plan = ?pre @ ?matched @ appended"
    using res assms(2) by (auto simp: appended_def split: if_splits)
  have un_set: "set ?un = fst ` set ?smap - set target" and un_dist: "distinct ?un"
    using unmatched_props[OF assms(1) distinct_keys] by blast+
  have keyed: "keyed ?smap" by (rule keyed_source_map)
  have "sec_text ` set ss = set ?un"
    using arg_cong[OF ss(2), of set] by simp
  then have app_texts: "set (map sec_text appended) \<subseteq> fst ` set ?smap - set target"
    using un_set by (auto simp: appended_def)
  have app_dist: "distinct (map sec_text appended)"
    using ss(2) un_dist by (simp add: appended_def)
  have key_not_pre: "h \<noteq> PREAMBLE" if "h \<in> fst ` set ?smap" for h
  proof -
    from that have "map_of ?smap h \<noteq> None" by (simp add: map_of_eq_None_iff)
    then show ?thesis using keyed unfolding keyed_def by auto
  qed
  have matched_texts: "sec_text s \<in> set target \<and> sec_text s \<noteq> PREAMBLE"
    if "s \<in> set ?matched" for s
    using that keyed unfolding in_schedule keyed_def by auto
  have matched_dist: "distinct (map sec_text ?matched)"
    using distinct_schedule[OF keyed] .
  have pre_texts: "sec_text s = PREAMBLE" if "s \<in> set ?pre" for s
    using that preamble_first_props(2) by blast
  have pre_len: "length ?pre \<le> 1" by (rule preamble_first_props(1))
  have pre_dist: "distinct (map sec_text ?pre)"
    using pre_len by (cases ?pre) auto
  have app_not_pre: "sec_text s \<noteq> PREAMBLE \<and> sec_text s \<notin> set target" if "s \<in> set appended" for s
    using that app_texts key_not_pre by auto
  have d: "distinct (map sec_text plan)"
    unfolding plan using pre_dist matched_dist app_dist pre_texts matched_texts app_not_pre
    by (auto simp: distinct_append; metis)
  then have d': "distinct plan" by (simp add: distinct_map)
  have first: "\<forall>i < length plan. sec_text (plan ! i) = PREAMBLE \<longrightarrow> i = 0"
  proof (intro allI impI)
    fix i assume i: "i < length plan" and t: "sec_text (plan ! i) = PREAMBLE"
    show "i = 0"
    proof (rule ccontr)
      assume "i \<noteq> 0"
      then have "length ?pre \<le> i" using pre_len by simp
      then have "plan ! i = (?matched @ appended) ! (i - length ?pre)"
        unfolding plan by (simp add: nth_append)
      moreover have "i - length ?pre < length (?matched @ appended)"
        using i \<open>length ?pre \<le> i\<close> unfolding plan by auto
      ultimately have "plan ! i \<in> set (?matched @ appended)"
        by (metis nth_mem)
      then show False using t matched_texts app_not_pre by auto
    qed
  qed
  have "sec_text ` set ?matched \<inter> sec_text ` set appended = {}"
  proof (rule ccontr)
    assume "sec_text ` set ?matched \<inter> sec_text ` set appended \<noteq> {}"
    then obtain x y where "x \<in> set ?matched" "y \<in> set appended" "sec_text x = sec_text y"
      by auto
    then show False using matched_texts[of x] app_not_pre[of y] by simp
  qed
  with plan pre_len pre_texts matched_texts app_not_pre d d' first
  show ?thesis by blast
qed

theorem no_section_scheduled_twice_witness:
  "set_iteration (set_order (plain_env rev))
   \<and> plan_sections (plain_env rev) default_args
       (build_source_map [heading_section (str ''A'') 0, heading_section (str ''B'') 1, heading_section (str ''C'') 2])
       [str ''B'', str ''B'']
     = ([UnmatchedAppended Append [str ''C'', str ''A'']],
        Inr [heading_section (str ''B'') 1, heading_section (str ''C'') 2, heading_section (str ''A'') 0])
   \<and> distinct [heading_section (str ''B'') 1, heading_section (str ''C'') 2, heading_section (str ''A'') 0]"
proof -
  have ord: "set_iteration (set_order (plain_env rev))"
    by (simp add: set_iteration_def plain_env_def)
  have run: "plan_sections (plain_env rev) default_args
       (build_source_map [heading_section (str ''A'') 0, heading_section (str ''B'') 1, heading_section (str ''C'') 2])
       [str ''B'', str ''B'']
     = ([UnmatchedAppended Append [str ''C'', str ''A'']],
        Inr [heading_section (str ''B'') 1, heading_section (str ''C'') 2, heading_section (str ''A'') 0])"
    by code_simp
  show ?thesis
    using no_section_scheduled_twice[OF ord run] ord run by blast
qed

section \<open>Headings missing from the source\<close>

lemma extract_headings_strings: "extract_headings (map YStr hs) = map YStr hs"
  by (induction hs) auto

lemma heading_strings_strings: "heading_strings (map YStr hs) = Some hs"
  by (induction hs) auto

lemma load_toc_file:
  "load_toc_config_for_reorganize (toc_file hs) = (if hs = [] then None else Some (map YStr hs))"
  by (simp add: load_toc_config_for_reorganize_def toc_file_def extract_headings_strings Let_def)

lemma run_reorganize_plain:
  assumes "parse_document_structure (Some body) (arg_max_level a) True = Some secs"
    and "target \<noteq> []"
  shows "run_reorganize ev a (toc_file target) (Some body) =
     (case plan_sections ev a (build_source_map secs) target of
        (log, Inl f) \<Rightarrow> (log, Inl f)
      | (log, Inr sections_to_write) \<Rightarrow> (log, emit ev sections_to_write))"
  using assms
  by (simp add: run_reorganize_def load_toc_file heading_strings_strings Let_def)

lemma schedule_filter:
  "schedule smap P (filter (\<lambda>h. h \<in> fst ` set smap) hs) = schedule smap P hs"
proof (induction hs arbitrary: P)
  case Nil
  show ?case by simp
next
  case (Cons h hs)
  show ?case
  proof (cases "h \<in> fst ` set smap")
    case True
    then show ?thesis using Cons by (simp split: option.splits)
  next
    case False
    then have "map_of smap h = None" by (simp add: map_of_eq_None_iff)
    then show ?thesis using False Cons by simp
  qed
qed

lemma unmatched_filter:
  "unmatched_in_source_headings ev smap (filter (\<lambda>h. h \<in> fst ` set smap) target)
     = unmatched_in_source_headings ev smap target"
proof -
  have "filter (\<lambda>h. h \<notin> set (filter (\<lambda>h. h \<in> fst ` set smap) target)) (map fst smap)
      = filter (\<lambda>h. h \<notin> set target) (map fst smap)"
    by (rule filter_cong) auto
  then show ?thesis by (simp add: unmatched_in_source_headings_def)
qed

lemma missing_filter:
  "missing_in_source smap (filter (\<lambda>h. h \<in> fst ` set smap) target) = []"
  by (simp add: missing_in_source_def filter_empty_conv)

lemma lookup_all_mem:
  assumes "lookup_all smap hs = Some ss" and "s \<in> set ss"
  shows "\<exists>h. map_of smap h = Some s"
proof -
  from assms(2) obtain i where i: "i < length ss" "ss ! i = s"
    by (auto simp: in_set_conv_nth)
  with lookup_all_nth[OF assms(1)] show ?thesis by metis
qed

lemma plan_subset_source:
  assumes ord: "set_iteration (set_order ev)"
    and plan: "snd (plan_sections ev a (build_source_map secs) target) = Inr plan"
  shows "set plan \<subseteq> set secs"
proof -
  let ?st = "build_source_map secs"
  let ?smap = "source_sections_map ?st"
  obtain ss where ss: "lookup_all ?smap (unmatched_in_source_headings ev ?smap target) = Some ss"
    and res: "snd (plan_sections ev a ?st target) =
       (if missing_in_source ?smap target \<noteq> [] \<and> arg_missing a = Error
        then Inl MissingHeadings
        else Inr (preamble_first (preamble_section ?st) @ schedule ?smap {} target
                  @ (if arg_unmatched a = Delete then [] else ss)))"
    using plan_sections_result[OF ord] by blast
  have p: "plan = preamble_first (preamble_section ?st) @ schedule ?smap {} target
                  @ (if arg_unmatched a = Delete then [] else ss)"
    using res plan by (auto split: if_splits)
  have 1: "set (preamble_first (preamble_section ?st)) \<subseteq> set secs"
    using preamble_first_props(2)[of _ secs] by auto
  have 2: "set (schedule ?smap {} target) \<subseteq> set secs"
    using map_key_text(3) unfolding in_schedule by (auto simp: in_schedule)
  have 3: "set ss \<subseteq> set secs"
    using lookup_all_mem[OF ss] map_key_text(3) by blast
  show ?thesis unfolding p using 1 2 3 by auto
qed

lemma emit_wf:
  assumes "\<forall>s \<in> set plan. wf_section L s"
  shows "emit ev plan = (if save_fails ev then Inl SaveFailed else Inr (copied ev plan))"
proof -
  have "\<not> (\<exists>s \<in> set plan. sec_elements s = None)"
    using assms wf_section_truthy by fastforce
  then show ?thesis unfolding emit_def by (simp only: if_False)
qed

lemma first_occurrences_schedule:
  assumes "keyed smap"
  shows "map sec_text (schedule smap P hs)
           = first_occurrences (filter (\<lambda>t. t \<notin> P \<and> t \<in> fst ` set smap) hs)"
proof (induction hs arbitrary: P)
  case Nil
  show ?case by simp
next
  case (Cons h hs)
  show ?case
  proof (cases "map_of smap h")
    case None
    then have "h \<notin> fst ` set smap" by (simp add: map_of_eq_None_iff)
    with None Cons[of P] show ?thesis by simp
  next
    case (Some s)
    then have in_map: "h \<in> fst ` set smap" by (metis map_of_eq_None_iff option.distinct(1))
    from Some assms have t: "sec_text s = h" unfolding keyed_def by blast
    show ?thesis
    proof (cases "h \<in> P")
      case True
      with Some Cons[of P] show ?thesis by simp
    next
      case False
      have "filter (\<lambda>y. y \<noteq> h) (filter (\<lambda>t. t \<notin> P \<and> t \<in> fst ` set smap) hs)
              = filter (\<lambda>t. t \<notin> insert h P \<and> t \<in> fst ` set smap) hs"
        by (induction hs) auto
      with False Some in_map t Cons[of "insert h P"] show ?thesis by simp
    qed
  qed
qed

text \<open>
  What holds of a heading \<open>h\<close> of the outline that is no key of the source section map.
  Under the policy \<open>error\<close> the run reports the missing headings and ends with a failure;
  no document is created or saved. Under \<open>warn\<close> and \<open>ignore\<close> the run goes on. The
  sections it schedules are those it would schedule for the outline without its missing
  headings: the preamble if there is one, then the sections of the headings of the
  outline that are keys of the map, in the order of the outline, each once and each the
  section that the map holds for it, then sections whose headings the outline does not
  name. All of them are sections of the source, and the run saves their copied elements
  unless saving fails. If \<open>h\<close> is not the preamble marker, no scheduled section carries it.
\<close>

lemma missing_policy_without_marker:
  assumes ord: "set_iteration (set_order ev)"
    and parse: "parse_document_structure (Some body) (arg_max_level a) True = Some secs"
    and h: "h \<in> set target" "h \<notin> fst ` set (source_sections_map (build_source_map secs))"
  shows "(arg_missing a = Error \<longrightarrow>
            run_reorganize ev a (toc_file target) (Some body)
              = (warnings (build_source_map secs)
                   @ [MissingAbort (missing_in_source (source_sections_map (build_source_map secs)) target)],
                 Inl MissingHeadings))
       \<and> (arg_missing a \<noteq> Error \<longrightarrow>
            (\<exists>plan matched rest.
               snd (plan_sections ev a (build_source_map secs) target) = Inr plan
               \<and> snd (plan_sections ev a (build_source_map secs)
                        (filter (\<lambda>t. t \<in> fst ` set (source_sections_map (build_source_map secs))) target))
                   = Inr plan
               \<and> snd (run_reorganize ev a (toc_file target) (Some body))
                   = (if save_fails ev then Inl SaveFailed else Inr (copied ev plan))
               \<and> set plan \<subseteq> set secs
               \<and> plan = preamble_first (preamble_section (build_source_map secs)) @ matched @ rest
               \<and> map sec_text matched
                   = first_occurrences
                       (filter (\<lambda>t. t \<in> fst ` set (source_sections_map (build_source_map secs))) target)
               \<and> (\<forall>s \<in> set matched.
                     map_of (source_sections_map (build_source_map secs)) (sec_text s) = Some s)
               \<and> sec_text ` set rest \<inter> set target = {}
               \<and> (h \<noteq> PREAMBLE \<longrightarrow> h \<notin> sec_text ` set plan)))"
proof -
  let ?st = "build_source_map secs"
  let ?smap = "source_sections_map ?st"
  let ?target' = "filter (\<lambda>t. t \<in> fst ` set ?smap) target"
  have ne: "target \<noteq> []" using h(1) by auto
  have missing: "missing_in_source ?smap target \<noteq> []"
    using h by (auto simp: missing_in_source_def filter_empty_conv)
  note run = run_reorganize_plain[OF parse ne, of ev]
  have err: "run_reorganize ev a (toc_file target) (Some body)
              = (warnings ?st @ [MissingAbort (missing_in_source ?smap target)], Inl MissingHeadings)"
    if "arg_missing a = Error"
    unfolding run using that missing by (simp add: plan_sections_def Let_def)
  have cont: "\<exists>plan matched rest. snd (plan_sections ev a ?st target) = Inr plan
               \<and> snd (plan_sections ev a ?st ?target') = Inr plan
               \<and> snd (run_reorganize ev a (toc_file target) (Some body))
                   = (if save_fails ev then Inl SaveFailed else Inr (copied ev plan))
               \<and> set plan \<subseteq> set secs
               \<and> plan = preamble_first (preamble_section ?st) @ matched @ rest
               \<and> map sec_text matched = first_occurrences ?target'
               \<and> (\<forall>s \<in> set matched. map_of ?smap (sec_text s) = Some s)
               \<and> sec_text ` set rest \<inter> set target = {}
               \<and> (h \<noteq> PREAMBLE \<longrightarrow> h \<notin> sec_text ` set plan)"
    if ne: "arg_missing a \<noteq> Error"
  proof -
    obtain ss where ss: "lookup_all ?smap (unmatched_in_source_headings ev ?smap target) = Some ss"
      "map sec_text ss = unmatched_in_source_headings ev ?smap target"
      and res: "snd (plan_sections ev a ?st target) =
         (if missing_in_source ?smap target \<noteq> [] \<and> arg_missing a = Error
          then Inl MissingHeadings
          else Inr (preamble_first (preamble_section ?st) @ schedule ?smap {} target
                    @ (if arg_unmatched a = Delete then [] else ss)))"
      using plan_sections_result[OF ord] by blast
    define plan where "plan = preamble_first (preamble_section ?st) @ schedule ?smap {} target
                    @ (if arg_unmatched a = Delete then [] else ss)"
    have p1: "snd (plan_sections ev a ?st target) = Inr plan"
      using res ne by (simp add: plan_def)
    obtain ss' where ss': "lookup_all ?smap (unmatched_in_source_headings ev ?smap ?target') = Some ss'"
      and res': "snd (plan_sections ev a ?st ?target') =
         (if missing_in_source ?smap ?target' \<noteq> [] \<and> arg_missing a = Error
          then Inl MissingHeadings
          else Inr (preamble_first (preamble_section ?st) @ schedule ?smap {} ?target'
                    @ (if arg_unmatched a = Delete then [] else ss')))"
      using plan_sections_result[OF ord] by blast
    have "ss' = ss" using ss(1) ss' by (simp add: unmatched_filter)
    then have p2: "snd (plan_sections ev a ?st ?target') = Inr plan"
      using res' ne by (simp add: plan_def schedule_filter)
    have sub: "set plan \<subseteq> set secs"
      using plan_subset_source[OF ord p1] .
    have wf: "\<forall>s \<in> set plan. wf_section (arg_max_level a) s"
      using sub parse_sections(1)[OF parse] by blast
    have p3: "snd (run_reorganize ev a (toc_file target) (Some body))
                   = (if save_fails ev then Inl SaveFailed else Inr (copied ev plan))"
      unfolding run using p1 emit_wf[OF wf, of ev]
      by (cases "plan_sections ev a ?st target") (auto split: sum.splits)
    have p4: "h \<notin> sec_text ` set plan" if hp: "h \<noteq> PREAMBLE"
    proof
      assume "h \<in> sec_text ` set plan"
      then obtain s where s: "s \<in> set plan" "sec_text s = h" by auto
      from s(1) consider "s \<in> set (preamble_first (preamble_section ?st))"
        | "s \<in> set (schedule ?smap {} target)" | "s \<in> set ss"
        unfolding plan_def by (auto split: if_splits)
      then show False
      proof cases
        case 1
        then show False using preamble_first_props(2) s(2) hp by blast
      next
        case 2
        then obtain k where "map_of ?smap k = Some s" unfolding in_schedule by auto
        then have "map_of ?smap h = Some s" using map_key_text(1) s(2) by blast
        then show False using h(2) by (metis map_of_eq_None_iff option.distinct(1))
      next
        case 3
        then obtain k where "map_of ?smap k = Some s" using lookup_all_mem[OF ss(1)] by blast
        then have "map_of ?smap h = Some s" using map_key_text(1) s(2) by blast
        then show False using h(2) by (metis map_of_eq_None_iff option.distinct(1))
      qed
    qed
    define rest where "rest = (if arg_unmatched a = Delete then [] else ss)"
    have p5: "plan = preamble_first (preamble_section ?st) @ schedule ?smap {} target @ rest"
      by (simp add: plan_def rest_def)
    have p6: "map sec_text (schedule ?smap {} target) = first_occurrences ?target'"
      using first_occurrences_schedule[OF keyed_source_map, of secs "{}" target] by simp
    have p7: "\<forall>s \<in> set (schedule ?smap {} target). map_of ?smap (sec_text s) = Some s"
    proof
      fix s assume "s \<in> set (schedule ?smap {} target)"
      then obtain k where k: "map_of ?smap k = Some s" unfolding in_schedule by auto
      with map_key_text(1)[OF k] show "map_of ?smap (sec_text s) = Some s" by simp
    qed
    have p8: "sec_text ` set rest \<inter> set target = {}"
    proof -
      have "sec_text ` set ss = set (unmatched_in_source_headings ev ?smap target)"
        using ss(2) by (metis set_map)
      also have "\<dots> = fst ` set ?smap - set target"
        using unmatched_props(2)[OF ord distinct_keys] .
      finally show ?thesis by (auto simp: rest_def)
    qed
    from p1 p2 p3 sub p4 p5 p6 p7 p8 show ?thesis by blast
  qed
  from err cont show ?thesis by blast
qed

text \<open>
  Claim C4. A heading of the outline that is no key of the source section map is to be
  left out of the output under the policies \<open>warn\<close> and \<open>ignore\<close>. The outline below names
  \<open>A\<close> and a heading whose text is the preamble marker, and the source has a heading
  paragraph for each. The second heading is no key of the map, and under \<open>warn\<close> it is
  reported as missing; all the same the run writes its section, and writes it first.
  Under \<open>ignore\<close> the output is the same, without the report.
\<close>

theorem missing_marker_heading_written:
  "parse_document_structure
       (Some [para (str ''Heading 1'') (str ''A'') 0,
              para (str ''Heading 1'') (str ''__PREAMBLE__'') 1]) 6 True
     = Some [heading_section (str ''A'') 0, heading_section (str ''__PREAMBLE__'') 1]
   \<and> map fst (source_sections_map (build_source_map
         [heading_section (str ''A'') 0, heading_section (str ''__PREAMBLE__'') 1]))
     = [str ''A'']
   \<and> arg_missing default_args = WarnMissing
   \<and> run_reorganize (plain_env rev) default_args
         (toc_file [str ''A'', str ''__PREAMBLE__''])
         (Some [para (str ''Heading 1'') (str ''A'') 0,
                para (str ''Heading 1'') (str ''__PREAMBLE__'') 1])
     = ([MissingSkipped [str ''__PREAMBLE__'']],
        Inr [para (str ''Heading 1'') (str ''__PREAMBLE__'') 1,
             para (str ''Heading 1'') (str ''A'') 0])
   \<and> run_reorganize (plain_env rev) (default_args\<lparr>arg_missing := Ignore\<rparr>)
         (toc_file [str ''A'', str ''__PREAMBLE__''])
         (Some [para (str ''Heading 1'') (str ''A'') 0,
                para (str ''Heading 1'') (str ''__PREAMBLE__'') 1])
     = ([],
        Inr [para (str ''Heading 1'') (str ''__PREAMBLE__'') 1,
             para (str ''Heading 1'') (str ''A'') 0])"
  by code_simp

text \<open>
  Without a heading that carries the marker the policies do what the claim says: of the
  outline \<open>B\<close>, \<open>X\<close>, \<open>A\<close>, \<open>B\<close> the heading \<open>X\<close> is missing from the source \<open>A\<close>, \<open>B\<close>, \<open>C\<close>.
\<close>

lemma missing_policy_example:
  "run_reorganize (plain_env rev) (default_args\<lparr>arg_missing := Error\<rparr>)
       (toc_file [str ''B'', str ''X'', str ''A'', str ''B''])
       (Some [para (str ''Heading 1'') (str ''A'') 0, other 1,
              para (str ''Heading 1'') (str ''B'') 2, para (str ''Heading 1'') (str ''C'') 3])
     = ([MissingAbort [str ''X'']], Inl MissingHeadings)
   \<and> run_reorganize (plain_env rev) (default_args\<lparr>arg_unmatched := Delete\<rparr>)
       (toc_file [str ''B'', str ''X'', str ''A'', str ''B''])
       (Some [para (str ''Heading 1'') (str ''A'') 0, other 1,
              para (str ''Heading 1'') (str ''B'') 2, para (str ''Heading 1'') (str ''C'') 3])
     = ([MissingSkipped [str ''X''], UnmatchedDiscarded [str ''C'']],
        Inr [para (str ''Heading 1'') (str ''B'') 2,
             para (str ''Heading 1'') (str ''A'') 0, other 1])
   \<and> first_occurrences [str ''B'', str ''A'', str ''B''] = [str ''B'', str ''A'']"
  by code_simp
section \<open>Duplicate headings\<close>

lemma seen_texts:
  "h \<in> headings_seen (build_source_map secs) \<longleftrightarrow> h \<in> set (map sec_text secs) \<and> h \<noteq> PREAMBLE"
proof (induction secs rule: rev_induct)
  case Nil
  show ?case by (simp add: build_source_map_Nil map_init_def)
next
  case (snoc s secs)
  show ?case
    unfolding build_source_map_snoc map_step_def Let_def
    using snoc by (cases "sec_text s = PREAMBLE") auto
qed


lemma map_step_duplicates:
  "h \<in> duplicate_headings (map_step st s) \<longleftrightarrow>
     h \<in> duplicate_headings st
     \<or> (h = sec_text s \<and> h \<noteq> PREAMBLE \<and> h \<in> headings_seen st)"
  by (auto simp: map_step_def Let_def)

lemma map_step_warnings:
  "warnings (map_step st s) =
     (if sec_text s \<noteq> PREAMBLE \<and> sec_text s \<in> headings_seen st
         \<and> sec_text s \<notin> duplicate_headings st
      then warnings st @ [DuplicateHeading (sec_text s)] else warnings st)"
  by (auto simp: map_step_def Let_def)


lemma duplicate_texts:
  "h \<in> duplicate_headings (build_source_map secs)
     \<longleftrightarrow> h \<noteq> PREAMBLE \<and> 2 \<le> count_list (map sec_text secs) h"
proof (induction secs rule: rev_induct)
  case Nil
  show ?case by (simp add: build_source_map_Nil map_init_def)
next
  case (snoc s secs)
  have seen: "h \<in> headings_seen (build_source_map secs)
        \<longleftrightarrow> h \<noteq> PREAMBLE \<and> 1 \<le> count_list (map sec_text secs) h"
    using count_list_0_iff[of "map sec_text secs" h]
    by (simp only: seen_texts) arith
  show ?case
  proof (cases "h = sec_text s")
    case True
    then have "count_list (map sec_text (secs @ [s])) h = count_list (map sec_text secs) h + 1"
      by simp
    then show ?thesis
      unfolding build_source_map_snoc map_step_duplicates snoc seen using True by arith
  next
    case False
    then have "count_list (map sec_text (secs @ [s])) h = count_list (map sec_text secs) h"
      by simp
    then show ?thesis
      unfolding build_source_map_snoc map_step_duplicates snoc using False by simp
  qed
qed

lemma warnings_count:
  "count_list (warnings (build_source_map secs)) (DuplicateHeading h)
     = (if h \<in> duplicate_headings (build_source_map secs) then 1 else 0)"
proof (induction secs rule: rev_induct)
  case Nil
  show ?case by (simp add: build_source_map_Nil map_init_def)
next
  case (snoc s secs)
  have sub: "h \<in> duplicate_headings (build_source_map secs) \<Longrightarrow>
               h \<in> headings_seen (build_source_map secs)"
    unfolding duplicate_texts seen_texts using count_list_0_iff[of "map sec_text secs" h]
    by auto
  show ?case
    unfolding build_source_map_snoc map_step_warnings map_step_duplicates
    using snoc sub by auto
qed

lemma duplicate_reported_once:
  assumes "h \<noteq> PREAMBLE" and "2 \<le> count_list (map sec_text secs) h"
  shows "count_list (warnings (build_source_map secs)) (DuplicateHeading h) = 1"
  using assms by (simp add: warnings_count duplicate_texts)

lemma elements_of_elems: "elements_of secs = concat (map elems secs)"
  by (induction secs) (simp_all add: elements_of_def elems_def)

lemma wf_elems: "wf_section L s \<Longrightarrow> elems s \<noteq> [] \<and> sec_elements s = Some (elems s)"
  by (auto simp: wf_section_def elems_def split: option.splits)

lemma distinct_elems:
  assumes wf: "\<forall>s \<in> set secs. wf_section L s" and d: "distinct (elements_of secs)"
  shows "distinct (map elems secs)"
proof -
  have "[] \<notin> set (map elems secs)" using wf wf_elems by fastforce
  then have "removeAll [] (map elems secs) = map elems secs" by simp
  with d show ?thesis unfolding elements_of_elems distinct_concat_iff by simp
qed

lemma sections_disjoint:
  assumes wf: "\<forall>s \<in> set secs. wf_section L s" and d: "distinct (elements_of secs)"
    and j: "j < length secs" and s: "s \<in> set secs" "s \<noteq> secs ! j"
  shows "set (elems s) \<inter> set (elems (secs ! j)) = {}"
proof -
  from s(1) obtain k where k: "k < length secs" "secs ! k = s"
    by (auto simp: in_set_conv_nth)
  with s(2) have kj: "k \<noteq> j" by auto
  have dm: "distinct (map elems secs)" using distinct_elems[OF wf d] .
  have "elems s \<noteq> elems (secs ! j)"
  proof
    assume "elems s = elems (secs ! j)"
    then have "map elems secs ! k = map elems secs ! j" using k j by simp
    moreover have "k < length (map elems secs)" "j < length (map elems secs)"
      using k(1) j by simp_all
    ultimately have "k = j" using dm nth_eq_iff_index_eq by blast
    with kj show False by simp
  qed
  moreover have "elems s \<in> set (map elems secs)" "elems (secs ! j) \<in> set (map elems secs)"
    using s(1) j by auto
  ultimately show ?thesis
    using d unfolding elements_of_elems distinct_concat_iff by blast
qed

lemma distinct_sections:
  assumes "\<forall>s \<in> set secs. wf_section L s" and "distinct (elements_of secs)"
  shows "distinct secs"
  using distinct_elems[OF assms] by (simp add: distinct_map)

lemma set_copied: "set (copied ev plan) \<subseteq> (\<Union>s \<in> set plan. set (elems s))"
  by (auto simp: copied_def elems_def split: option.splits)

lemma plan_members:
  assumes ord: "set_iteration (set_order ev)"
    and plan: "snd (plan_sections ev a (build_source_map secs) target) = Inr plan"
    and s: "s \<in> set plan"
  shows "s \<in> set (preamble_first (preamble_section (build_source_map secs)))
       \<or> (\<exists>k. map_of (source_sections_map (build_source_map secs)) k = Some s)"
proof -
  let ?st = "build_source_map secs"
  let ?smap = "source_sections_map ?st"
  obtain ss where ss: "lookup_all ?smap (unmatched_in_source_headings ev ?smap target) = Some ss"
    and res: "snd (plan_sections ev a ?st target) =
       (if missing_in_source ?smap target \<noteq> [] \<and> arg_missing a = Error
        then Inl MissingHeadings
        else Inr (preamble_first (preamble_section ?st) @ schedule ?smap {} target
                  @ (if arg_unmatched a = Delete then [] else ss)))"
    using plan_sections_result[OF ord] by blast
  have p: "plan = preamble_first (preamble_section ?st) @ schedule ?smap {} target
                  @ (if arg_unmatched a = Delete then [] else ss)"
    using res plan by (auto split: if_splits)
  from s consider "s \<in> set (preamble_first (preamble_section ?st))"
    | "s \<in> set (schedule ?smap {} target)" | "s \<in> set ss"
    unfolding p by (auto split: if_splits)
  then show ?thesis
  proof cases
    case 1
    then show ?thesis by simp
  next
    case 2
    then show ?thesis unfolding in_schedule by auto
  next
    case 3
    then show ?thesis using lookup_all_mem[OF ss] by blast
  qed
qed

text \<open>
  Claim C5, as amended. Let two extracted sections of a document carry the same heading
  text, other than the preamble marker (the elements of the body being pairwise different
  objects). Then the entry of the source section map for this text is the first section
  that carries it; the text is reported as a duplicate exactly once, however many later
  occurrences there are; the later occurrence is not among the scheduled sections, and
  none of its elements is in the document that is saved.
\<close>

theorem duplicate_heading_first_wins:
  assumes ord: "set_iteration (set_order ev)"
    and parse: "parse_document_structure (Some body) (arg_max_level a) True = Some secs"
    and body: "distinct body"
    and ij: "i < j" "j < length secs" "sec_text (secs ! i) = sec_text (secs ! j)"
    and np: "sec_text (secs ! j) \<noteq> PREAMBLE"
  shows "(\<exists>k \<le> i. map_of (source_sections_map (build_source_map secs)) (sec_text (secs ! j))
                   = Some (secs ! k)
              \<and> (\<forall>m < k. sec_text (secs ! m) \<noteq> sec_text (secs ! j))
              \<and> secs ! k \<noteq> secs ! j)
       \<and> count_list (warnings (build_source_map secs)) (DuplicateHeading (sec_text (secs ! j))) = 1
       \<and> (\<forall>plan. snd (plan_sections ev a (build_source_map secs) target) = Inr plan
             \<longrightarrow> secs ! j \<notin> set plan)
       \<and> (\<exists>es. sec_elements (secs ! j) = Some es \<and> es \<noteq> []
             \<and> (\<forall>out. snd (run_reorganize ev a (toc_file target) (Some body)) = Inr out
                   \<longrightarrow> set out \<inter> set es = {}))"
proof -
  let ?st = "build_source_map secs"
  let ?smap = "source_sections_map ?st"
  let ?h = "sec_text (secs ! j)"
  let ?L = "arg_max_level a"
  note wf = parse_sections(1)[OF parse]
  have d: "distinct (elements_of secs)" using parse_sections(2)[OF parse] body by simp
  have ds: "distinct secs" using distinct_sections[OF wf d] .
  have i: "i < length secs" using ij by simp
  \<comment> \<open>the first occurrence is the entry of the map\<close>
  have "find (\<lambda>s. sec_text s = ?h) secs \<noteq> None"
    using i ij(3) by (auto simp: find_None_iff in_set_conv_nth)
  then obtain x where x: "find (\<lambda>s. sec_text s = ?h) secs = Some x" by auto
  then obtain k where k: "k < length secs" "sec_text (secs ! k) = ?h" "x = secs ! k"
    "\<forall>m < k. sec_text (secs ! m) \<noteq> ?h"
    unfolding find_Some_iff by blast
  have ki: "k \<le> i"
  proof (rule ccontr)
    assume "\<not> k \<le> i"
    then have "i < k" by simp
    with k(4) ij(3) show False by auto
  qed
  have entry: "map_of ?smap ?h = Some (secs ! k)"
    using x k(3) np by (simp add: map_of_source_map)
  have kj: "secs ! k \<noteq> secs ! j"
    using ds k(1) ij(1,2) ki by (simp add: nth_eq_iff_index_eq)
  have first: "\<exists>k \<le> i. map_of ?smap ?h = Some (secs ! k)
              \<and> (\<forall>m < k. sec_text (secs ! m) \<noteq> ?h) \<and> secs ! k \<noteq> secs ! j"
    using ki entry k(4) kj by blast
  \<comment> \<open>the heading is reported once\<close>
  have "count_list (map sec_text secs) ?h \<ge> 2"
  proof -
    have split: "secs = take j secs @ secs ! j # drop (Suc j) secs"
      using ij(2) by (rule id_take_nth_drop)
    have "take j secs ! i \<in> set (take j secs)"
      using ij(1,2) by (intro nth_mem) simp
    then have "secs ! i \<in> set (take j secs)"
      using ij(1) by simp
    then have "sec_text (secs ! i) \<in> sec_text ` set (take j secs)"
      by (rule imageI)
    then have "?h \<in> set (map sec_text (take j secs))"
      using ij(3) by simp
    then have "count_list (map sec_text (take j secs)) ?h \<ge> 1"
      using count_list_0_iff[of "map sec_text (take j secs)" ?h] by arith
    moreover have "count_list (map sec_text secs) ?h
        = count_list (map sec_text (take j secs)) ?h
          + count_list (map sec_text (secs ! j # drop (Suc j) secs)) ?h"
      by (subst split) (simp only: map_append count_list_append)
    ultimately show ?thesis by simp
  qed
  then have once: "count_list (warnings ?st) (DuplicateHeading ?h) = 1"
    using duplicate_reported_once[OF np] by blast
  \<comment> \<open>the later occurrence is not scheduled\<close>
  have notin: "secs ! j \<notin> set plan"
    if plan: "snd (plan_sections ev a ?st target) = Inr plan" for plan
  proof
    assume "secs ! j \<in> set plan"
    from plan_members[OF ord plan this]
    show False
    proof
      assume "secs ! j \<in> set (preamble_first (preamble_section ?st))"
      then show False using preamble_first_props(2) np by blast
    next
      assume "\<exists>k. map_of ?smap k = Some (secs ! j)"
      then obtain k' where k': "map_of ?smap k' = Some (secs ! j)" by blast
      then have "k' = ?h" using map_key_text(1) by blast
      with k' entry kj show False by simp
    qed
  qed
  \<comment> \<open>its elements are not written\<close>
  obtain es where es: "sec_elements (secs ! j) = Some es" "es \<noteq> []" "es = elems (secs ! j)"
    using wf ij(2) wf_elems by (metis nth_mem)
  have out: "set out \<inter> set es = {}"
    if run: "snd (run_reorganize ev a (toc_file target) (Some body)) = Inr out" for out
  proof -
    have ne: "target \<noteq> []"
      using run by (auto simp: run_reorganize_def load_toc_file)
    note r = run_reorganize_plain[OF parse ne, of ev]
    obtain log res where pr: "plan_sections ev a ?st target = (log, res)"
      by (cases "plan_sections ev a ?st target")
    with run r obtain plan where plan: "res = Inr plan" and e: "emit ev plan = Inr out"
      by (cases res) auto
    have p: "snd (plan_sections ev a ?st target) = Inr plan" using pr plan by simp
    have sub: "set plan \<subseteq> set secs" using plan_subset_source[OF ord p] .
    have "out = copied ev plan" using e by (auto simp: emit_def split: if_splits)
    then have "set out \<subseteq> (\<Union>s \<in> set plan. set (elems s))" using set_copied by simp
    moreover have "set (elems s) \<inter> set es = {}" if "s \<in> set plan" for s
    proof -
      have "s \<noteq> secs ! j" using notin[OF p] that by auto
      moreover have "s \<in> set secs" using sub that by auto
      ultimately show ?thesis using sections_disjoint[OF wf d ij(2)] es(3) by simp
    qed
    ultimately show ?thesis by blast
  qed
  from first once notin es(1,2) out show ?thesis by blast
qed

text \<open>
  The claim as stated asks for a report of every later occurrence. A document with three
  headings \<open>A\<close> gets one report: the third occurrence leaves the reports as they were
  after the second.
\<close>

theorem third_occurrence_not_reported:
  "map_option (map sec_text) (parse_document_structure
       (Some [para (str ''Heading 1'') (str ''A'') 0, para (str ''Heading 1'') (str ''A'') 1, para (str ''Heading 1'') (str ''A'') 2])
       6 True) = Some [str ''A'', str ''A'', str ''A'']
   \<and> run_reorganize (plain_env rev) default_args (toc_file [str ''A''])
       (Some [para (str ''Heading 1'') (str ''A'') 0, para (str ''Heading 1'') (str ''A'') 1, para (str ''Heading 1'') (str ''A'') 2])
     = ([DuplicateHeading (str ''A'')], Inr [para (str ''Heading 1'') (str ''A'') 0])
   \<and> warnings (build_source_map
         [heading_section (str ''A'') 0, heading_section (str ''A'') 1, heading_section (str ''A'') 2])
     = warnings (build_source_map [heading_section (str ''A'') 0, heading_section (str ''A'') 1])"
  by code_simp

theorem duplicate_heading_first_wins_witness:
  "set_iteration (set_order (plain_env rev))
   \<and> parse_document_structure
       (Some [para (str ''Heading 1'') (str ''A'') 0, para (str ''Heading 1'') (str ''B'') 1, para (str ''Heading 1'') (str ''A'') 2])
       (arg_max_level default_args) True
     = Some [heading_section (str ''A'') 0, heading_section (str ''B'') 1, heading_section (str ''A'') 2]
   \<and> distinct [para (str ''Heading 1'') (str ''A'') 0, para (str ''Heading 1'') (str ''B'') 1, para (str ''Heading 1'') (str ''A'') 2]
   \<and> count_list (warnings (build_source_map
         [heading_section (str ''A'') 0, heading_section (str ''B'') 1, heading_section (str ''A'') 2]))
       (DuplicateHeading (str ''A'')) = 1
   \<and> map_of (source_sections_map (build_source_map
         [heading_section (str ''A'') 0, heading_section (str ''B'') 1, heading_section (str ''A'') 2])) (str ''A'')
       = Some (heading_section (str ''A'') 0)"
proof -
  let ?body = "[para (str ''Heading 1'') (str ''A'') 0, para (str ''Heading 1'') (str ''B'') 1, para (str ''Heading 1'') (str ''A'') 2]"
  let ?secs = "[heading_section (str ''A'') 0, heading_section (str ''B'') 1, heading_section (str ''A'') 2]"
  have ord: "set_iteration (set_order (plain_env rev))"
    by (simp add: set_iteration_def plain_env_def)
  have parse: "parse_document_structure (Some ?body) (arg_max_level default_args) True = Some ?secs"
    by code_simp
  have body: "distinct ?body"
    by code_simp
  have ij: "(0::nat) < 2" "2 < length ?secs" "sec_text (?secs ! 0) = sec_text (?secs ! 2)"
    "sec_text (?secs ! 2) \<noteq> PREAMBLE"
    by code_simp+
  have t: "sec_text (?secs ! 2) = str ''A''"
    "sec_elements (?secs ! 2) = Some [para (str ''Heading 1'') (str ''A'') 2]"
    by code_simp+
  from duplicate_heading_first_wins[OF ord parse body ij, of "[str ''A'', str ''B'']"]
  show ?thesis
    using ord parse body unfolding t by auto
qed

section \<open>Matching headings\<close>






section \<open>Where the program departs from the claims\<close>

text \<open>
  Reversing is an order in which a set can be iterated: every element comes once.
\<close>

lemma set_iteration_rev: "set_iteration (set_order (plain_env rev))"
  by (simp add: set_iteration_def plain_env_def)

text \<open>
  Apart from the order, the unmatched sections are treated as claim C1 says: under
  \<open>delete\<close> nothing is appended; under \<open>append\<close> and \<open>warn\<close> the appended sections
  come after the matched ones and are, each once, the sections of the map whose headings
  the outline does not hold.
\<close>

lemma unmatched_sections_policy:
  assumes ord: "set_iteration (set_order ev)"
    and plan: "snd (plan_sections ev a (build_source_map secs) target) = Inr plan"
  shows "\<exists>appended.
           plan = preamble_first (preamble_section (build_source_map secs))
                  @ schedule (source_sections_map (build_source_map secs)) {} target @ appended
         \<and> (arg_unmatched a = Delete \<longrightarrow> appended = [])
         \<and> (arg_unmatched a \<noteq> Delete \<longrightarrow>
               distinct (map sec_text appended)
             \<and> set (map sec_text appended)
                 = fst ` set (source_sections_map (build_source_map secs)) - set target
             \<and> (\<forall>s \<in> set appended.
                   map_of (source_sections_map (build_source_map secs)) (sec_text s) = Some s))"
proof -
  let ?st = "build_source_map secs"
  let ?smap = "source_sections_map ?st"
  let ?un = "unmatched_in_source_headings ev ?smap target"
  obtain ss where ss: "lookup_all ?smap ?un = Some ss" "map sec_text ss = ?un"
    and res: "snd (plan_sections ev a ?st target) =
       (if missing_in_source ?smap target \<noteq> [] \<and> arg_missing a = Error
        then Inl MissingHeadings
        else Inr (preamble_first (preamble_section ?st) @ schedule ?smap {} target
                  @ (if arg_unmatched a = Delete then [] else ss)))"
    using plan_sections_result[OF ord] by blast
  have p: "plan = preamble_first (preamble_section ?st) @ schedule ?smap {} target
                  @ (if arg_unmatched a = Delete then [] else ss)"
    using res plan by (auto split: if_splits)
  have d: "distinct (map sec_text ss)"
    and s: "set (map sec_text ss) = fst ` set ?smap - set target"
    using unmatched_props[OF ord distinct_keys, of secs target] ss(2) by simp_all
  have m: "\<forall>s \<in> set ss. map_of ?smap (sec_text s) = Some s"
  proof
    fix x assume "x \<in> set ss"
    then obtain k where k: "map_of ?smap k = Some x" using lookup_all_mem[OF ss(1)] by blast
    then have "sec_text x = k" using map_key_text(1) by blast
    with k show "map_of ?smap (sec_text x) = Some x" by simp
  qed
  show ?thesis
    by (rule exI[of _ "if arg_unmatched a = Delete then [] else ss"]) (use p d s m in auto)
qed

text \<open>
  Claim C1 asks for the unmatched sections in the order of the source document. The
  program takes them in the order in which Python iterates over the set difference of
  line 216. For the source headings \<open>A\<close>, \<open>B\<close>, \<open>C\<close> and the outline \<open>B\<close>, an iteration
  that yields \<open>C\<close> before \<open>A\<close> gives the output \<open>B\<close>, \<open>C\<close>, \<open>A\<close>.
\<close>

theorem unmatched_appended_in_set_order:
  "run_reorganize (plain_env rev) default_args (toc_file [str ''B''])
       (Some [para (str ''Heading 1'') (str ''A'') 0, para (str ''Heading 1'') (str ''B'') 1, para (str ''Heading 1'') (str ''C'') 2])
     = ([UnmatchedAppended Append [str ''C'', str ''A'']],
        Inr [para (str ''Heading 1'') (str ''B'') 1, para (str ''Heading 1'') (str ''C'') 2, para (str ''Heading 1'') (str ''A'') 0])"
  by code_simp

lemma update_fresh: "k \<notin> fst ` set al \<Longrightarrow> AList.update k v al = al @ [(k, v)]"
  by (induction al) auto

lemma source_map_distinct:
  assumes "distinct (map sec_text (filter (\<lambda>s. sec_text s \<noteq> PREAMBLE) secs))"
  shows "source_sections_map (build_source_map secs)
           = map (\<lambda>s. (sec_text s, s)) (filter (\<lambda>s. sec_text s \<noteq> PREAMBLE) secs)"
  using assms
proof (induction secs rule: rev_induct)
  case Nil
  show ?case by (simp add: build_source_map_Nil map_init_def)
next
  case (snoc s secs)
  let ?st = "build_source_map secs"
  have ih: "source_sections_map ?st
           = map (\<lambda>s. (sec_text s, s)) (filter (\<lambda>s. sec_text s \<noteq> PREAMBLE) secs)"
    using snoc by simp
  show ?case
  proof (cases "sec_text s = PREAMBLE")
    case True
    then show ?thesis using ih by (simp add: build_source_map_snoc map_step_def)
  next
    case False
    then have new: "sec_text s \<notin> sec_text ` set (filter (\<lambda>s. sec_text s \<noteq> PREAMBLE) secs)"
      using snoc.prems by simp
    then have "sec_text s \<notin> headings_seen ?st"
      using False by (auto simp: seen_texts)
    moreover have "sec_text s \<notin> fst ` set (source_sections_map ?st)"
      using new unfolding ih by (auto simp: image_iff)
    ultimately show ?thesis
      using False ih by (simp add: build_source_map_snoc map_step_def Let_def update_fresh)
  qed
qed

lemma preamble_only_first:
  assumes wf: "\<forall>s \<in> set secs. wf_section L s"
    and first: "\<forall>i < length secs. sec_level (secs ! i) = 0 \<longrightarrow> i = 0"
    and nm: "\<forall>s \<in> set secs. sec_level s \<noteq> 0 \<longrightarrow> sec_text s \<noteq> PREAMBLE"
  shows "preamble_first (preamble_section (build_source_map secs))
           = (case secs of [] \<Rightarrow> [] | s # rest \<Rightarrow> if sec_level s = 0 then [s] else [])"
    and "filter (\<lambda>s. sec_text s \<noteq> PREAMBLE) secs = filter (\<lambda>s. sec_level s \<noteq> 0) secs"
    and "preamble_first (preamble_section (build_source_map secs))
           @ filter (\<lambda>s. sec_level s \<noteq> 0) secs = secs"
proof -
  have iff: "sec_text s = PREAMBLE \<longleftrightarrow> sec_level s = 0" if "s \<in> set secs" for s
    using wf nm that by (auto simp: wf_section_def split: option.splits if_splits)
  show f: "filter (\<lambda>s. sec_text s \<noteq> PREAMBLE) secs = filter (\<lambda>s. sec_level s \<noteq> 0) secs"
    by (rule filter_cong) (simp_all add: iff)
  show p: "preamble_first (preamble_section (build_source_map secs))
           = (case secs of [] \<Rightarrow> [] | s # rest \<Rightarrow> if sec_level s = 0 then [s] else [])"
  proof (cases secs)
    case Nil
    then show ?thesis by (simp add: build_source_map_Nil map_init_def preamble_first_def)
  next
    case (Cons s0 rest)
    have rest: "sec_level s \<noteq> 0" if "s \<in> set rest" for s
    proof -
      from that obtain i where "i < length rest" "rest ! i = s" by (auto simp: in_set_conv_nth)
      then have "Suc i < length secs" "secs ! Suc i = s" using Cons by auto
      with first show ?thesis by fastforce
    qed
    have "find (\<lambda>s. sec_text s = PREAMBLE) (rev rest) = None"
      using rest iff Cons by (auto simp: find_None_iff)
    then have "preamble_section (build_source_map secs)
                 = (if sec_text s0 = PREAMBLE then Some s0 else None)"
      unfolding preamble_of_map Cons by (simp add: find_snoc)
    moreover have "truthy (sec_elements s0)" using wf Cons wf_section_truthy by auto
    ultimately show ?thesis using iff[of s0] Cons by (simp add: preamble_first_def)
  qed
  show "preamble_first (preamble_section (build_source_map secs))
           @ filter (\<lambda>s. sec_level s \<noteq> 0) secs = secs"
  proof (cases secs)
    case Nil
    then show ?thesis using p by simp
  next
    case (Cons s0 rest)
    have rest: "sec_level s \<noteq> 0" if "s \<in> set rest" for s
    proof -
      from that obtain i where "i < length rest" "rest ! i = s" by (auto simp: in_set_conv_nth)
      then have "Suc i < length secs" "secs ! Suc i = s" using Cons by auto
      with first show ?thesis by fastforce
    qed
    then have "filter (\<lambda>s. sec_level s \<noteq> 0) rest = rest" by (simp add: filter_id_conv)
    moreover have "preamble_first (preamble_section (build_source_map secs))
                     = (if sec_level s0 = 0 then [s0] else [])"
      using p Cons by simp
    ultimately show ?thesis using Cons by simp
  qed
qed

lemma schedule_distinct_keys:
  assumes "distinct hs" and "set hs \<inter> P = {}"
    and "\<forall>h \<in> set hs. map_of smap h = Some (f h)"
  shows "schedule smap P hs = map f hs"
  using assms
proof (induction hs arbitrary: P)
  case Nil
  show ?case by simp
next
  case (Cons h hs)
  have "schedule smap (insert h P) hs = map f hs"
    using Cons.prems by (intro Cons.IH) auto
  then show ?case using Cons.prems by simp
qed

lemma schedule_own_keys:
  assumes "distinct (map fst smap)"
  shows "schedule smap {} (map fst smap) = map snd smap"
proof -
  have "schedule smap {} (map fst smap) = map (\<lambda>k. the (map_of smap k)) (map fst smap)"
    using assms by (intro schedule_distinct_keys) (auto simp: map_of_eq_None_iff image_iff)
  also have "\<dots> = map snd smap"
    using assms by (auto simp: map_of_is_SomeI)
  finally show ?thesis .
qed

lemma set_iteration_Nil: "set_iteration ord \<Longrightarrow> ord [] = []"
  unfolding set_iteration_def by (metis distinct.simps(1) set_empty)

text \<open>
  What claim C7 asks for holds when no heading of the document has the marker as its
  trimmed text: for distinct headings, the document's own heading order as the outline
  gives back the extracted sections in their order, under every policy for unmatched
  sections.
\<close>

lemma own_order_without_marker:
  assumes ord: "set_iteration (set_order ev)"
    and parse: "parse_document_structure (Some body) L True = Some secs"
    and nm: "\<forall>s \<in> set secs. sec_level s \<noteq> 0 \<longrightarrow> sec_text s \<noteq> PREAMBLE"
    and dist: "distinct (map sec_text (filter (\<lambda>s. sec_level s \<noteq> 0) secs))"
  shows "snd (plan_sections ev a (build_source_map secs)
                (map sec_text (filter (\<lambda>s. sec_level s \<noteq> 0) secs))) = Inr secs"
proof -
  let ?st = "build_source_map secs"
  let ?hs = "filter (\<lambda>s. sec_level s \<noteq> 0) secs"
  let ?target = "map sec_text ?hs"
  note wf = parse_sections(1)[OF parse] and first = parse_sections(3)[OF parse]
  note pf = preamble_only_first[OF wf first nm]
  have smap: "source_sections_map ?st = map (\<lambda>s. (sec_text s, s)) ?hs"
    using source_map_distinct[of secs] dist unfolding pf(2) by simp
  have keys: "map fst (source_sections_map ?st) = ?target"
    unfolding smap by (simp add: comp_def)
  have vals: "map snd (source_sections_map ?st) = ?hs"
    unfolding smap by (simp add: comp_def)
  have sched: "schedule (source_sections_map ?st) {} ?target = ?hs"
    using schedule_own_keys[OF distinct_keys, of secs] unfolding keys vals .
  have missing: "missing_in_source (source_sections_map ?st) ?target = []"
    unfolding missing_in_source_def keys by simp
  have "filter (\<lambda>h. h \<notin> set ?target) (map fst (source_sections_map ?st)) = []"
    unfolding keys by simp
  then have unmatched: "unmatched_in_source_headings ev (source_sections_map ?st) ?target = []"
    unfolding unmatched_in_source_headings_def using set_iteration_Nil[OF ord] by simp
  have "snd (plan_sections ev a ?st ?target)
          = Inr (preamble_first (preamble_section ?st) @ ?hs)"
    by (simp add: plan_sections_def Let_def missing unmatched sched lookup_all_def)
  then show ?thesis using pf(3) by simp
qed

text \<open>
  What claim C6 asks for holds under the same condition: the section written first is
  the preamble exactly when the document has content before its first heading, and that
  content is what the section holds.
\<close>

lemma preamble_without_marker:
  assumes parse: "parse_document_structure (Some body) L True = Some secs"
    and nm: "\<forall>s \<in> set secs. sec_level s \<noteq> 0 \<longrightarrow> sec_text s \<noteq> PREAMBLE"
  shows "preamble_first (preamble_section (build_source_map secs))
           = (if takeWhile (\<lambda>e. heading_of L e = None) body = [] then []
              else [\<lparr>sec_text = PREAMBLE, sec_level = 0,
                     sec_elements = Some (takeWhile (\<lambda>e. heading_of L e = None) body)\<rparr>])"
proof -
  note wf = parse_sections(1)[OF parse] and first = parse_sections(3)[OF parse]
  note body = parse_sections(2)[OF parse]
  note pf = preamble_only_first[OF wf first nm]
  let ?P = "\<lambda>e. heading_of L e = None"
  show ?thesis
  proof (cases secs)
    case Nil
    then show ?thesis using pf(1) body by (simp add: elements_of_def)
  next
    case (Cons s0 rest)
    have wf0: "wf_section L s0" using wf Cons by simp
    then obtain es where es: "sec_elements s0 = Some es" "es \<noteq> []"
      by (auto simp: wf_section_def split: option.splits)
    have tl: "\<forall>e \<in> set (tl es). ?P e" using wf0 es by (auto simp: wf_section_def)
    have b: "body = es @ elements_of rest"
      using body Cons es by (simp add: elements_of_def)
    have rest_head: "elements_of rest \<noteq> [] \<Longrightarrow> \<not> ?P (hd (elements_of rest))"
    proof -
      assume ne: "elements_of rest \<noteq> []"
      then obtain s1 rest' where r: "rest = s1 # rest'"
        by (cases rest) (auto simp: elements_of_def)
      have "wf_section L s1" using wf Cons r by simp
      moreover have "sec_level s1 \<noteq> 0" using first Cons r by fastforce
      ultimately obtain es1 where "sec_elements s1 = Some es1" "es1 \<noteq> []"
        "\<exists>t. heading_of L (hd es1) = Some (sec_level s1, t)"
        by (auto simp: wf_section_def split: option.splits if_splits)
      then show ?thesis unfolding r by (auto simp: elements_of_def)
    qed
    show ?thesis
    proof (cases "sec_level s0 = 0")
      case True
      then have t0: "sec_text s0 = PREAMBLE" and h0: "?P (hd es)"
        using wf0 es by (auto simp: wf_section_def)
      have all: "\<forall>e \<in> set es. ?P e"
        using h0 tl es(2) by (cases es) auto
      have "takeWhile ?P body = es"
      proof (cases "elements_of rest = []")
        case True
        then show ?thesis using b all by simp
      next
        case False
        then obtain x xs where x: "elements_of rest = x # xs" by (cases "elements_of rest") auto
        with rest_head have "\<not> ?P x" by simp
        then show ?thesis unfolding b x using all by (simp add: takeWhile_append2)
      qed
      moreover have "s0 = \<lparr>sec_text = PREAMBLE, sec_level = 0, sec_elements = Some es\<rparr>"
        using True t0 es(1) by simp
      ultimately show ?thesis using pf(1) Cons True es(2) by simp
    next
      case False
      then have "\<not> ?P (hd es)" using wf0 es by (auto simp: wf_section_def)
      then have "takeWhile ?P body = []"
        unfolding b using es(2) by (cases es) auto
      then show ?thesis using pf(1) Cons False by simp
    qed
  qed
qed

text \<open>
  Claim C6 asks for the content before the first heading at the start of the output. A
  heading whose text is the marker \<open>__PREAMBLE__\<close> takes the place of the preamble
  (line 193 tells the preamble by its text): its section is written first, and the
  content before the first heading, here the element 0, is not written at all.
\<close>

theorem preamble_lost_to_marker_heading:
  "parse_document_structure
       (Some [other 0, para (str ''Heading 1'') (str ''__PREAMBLE__'') 1, para (str ''Heading 1'') (str ''Intro'') 2]) 6 True
     = Some [\<lparr>sec_text = str ''__PREAMBLE__'', sec_level = 0, sec_elements = Some [other 0]\<rparr>,
             \<lparr>sec_text = str ''__PREAMBLE__'', sec_level = 1,
               sec_elements = Some [para (str ''Heading 1'') (str ''__PREAMBLE__'') 1]\<rparr>,
             \<lparr>sec_text = str ''Intro'', sec_level = 1,
               sec_elements = Some [para (str ''Heading 1'') (str ''Intro'') 2]\<rparr>]
   \<and> snd (run_reorganize (plain_env rev) default_args (toc_file [str ''Intro''])
       (Some [other 0, para (str ''Heading 1'') (str ''__PREAMBLE__'') 1, para (str ''Heading 1'') (str ''Intro'') 2]))
     = Inr [para (str ''Heading 1'') (str ''__PREAMBLE__'') 1, para (str ''Heading 1'') (str ''Intro'') 2]"
  by code_simp

text \<open>
  Claim C7 asks that the outline of the document's own headings reproduces the document.
  With the distinct headings \<open>A\<close> and \<open>__PREAMBLE__\<close>, in this order, the section of the
  second heading is taken for the preamble and written before the first.
\<close>

theorem own_order_not_reproduced:
  "map_option (map sec_text) (parse_document_structure
       (Some [para (str ''Heading 1'') (str ''A'') 0, para (str ''Heading 1'') (str ''__PREAMBLE__'') 1]) 6 True)
     = Some [str ''A'', str ''__PREAMBLE__'']
   \<and> snd (run_reorganize (plain_env rev) default_args (toc_file [str ''A'', str ''__PREAMBLE__''])
       (Some [para (str ''Heading 1'') (str ''A'') 0, para (str ''Heading 1'') (str ''__PREAMBLE__'') 1]))
     = Inr [para (str ''Heading 1'') (str ''__PREAMBLE__'') 1, para (str ''Heading 1'') (str ''A'') 0]"
  by code_simp

section \<open>The nested outline\<close>

lemma repr_frame:
  assumes "repr h t" and "c \<notin> set (laddrs t)"
  shows "repr \<lparr>dicts = dicts h @ ds, lists = (lists h)[c := x] @ ls\<rparr> t"
  using assms
proof (induction t)
  case (AT a c' tx lv ts)
  have "repr \<lparr>dicts = dicts h @ ds, lists = (lists h)[c := x] @ ls\<rparr> t" if "t \<in> set ts" for t
    using AT that by auto
  moreover have "c' \<noteq> c" using AT.prems by auto
  ultimately show ?case
    using AT.prems by (auto simp: get_dict_def get_list_def nth_append split: if_splits)
qed

lemma a_dict_attach_in [simp]: "a_dict (attach_in t k n) = a_dict t"
  by (cases t; cases k) auto

lemma a_list_attach_in [simp]: "a_list (attach_in t k n) = a_list t"
  by (cases t; cases k) auto

lemma repr_node_at: "repr h t \<Longrightarrow> path_ok t k \<Longrightarrow> repr h (node_at t k)"
proof (induction k arbitrary: t)
  case 0
  then show ?case by simp
next
  case (Suc k)
  obtain a c tx lv ts where t: "t = AT a c tx lv ts" by (cases t)
  with Suc.prems have "ts \<noteq> []" "path_ok (last ts) k" "repr h (last ts)"
    by auto
  with Suc.IH show ?case unfolding t by simp
qed

lemma laddrs_node_at: "path_ok t k \<Longrightarrow> set (laddrs (node_at t k)) \<subseteq> set (laddrs t)"
proof (induction k arbitrary: t)
  case 0
  then show ?case by simp
next
  case (Suc k)
  obtain a c tx lv ts where t: "t = AT a c tx lv ts" by (cases t)
  with Suc.prems have ne: "ts \<noteq> []" and p: "path_ok (last ts) k" by auto
  have "set (laddrs (last ts)) \<subseteq> set (laddrs t)"
    unfolding t using ne last_in_set[OF ne] by auto
  with Suc.IH[OF p] show ?case unfolding t by auto
qed

lemma a_list_in_laddrs: "a_list t \<in> set (laddrs t)"
  by (cases t) simp

lemma split_last_children:
  assumes "ts \<noteq> []" and "distinct (concat (map laddrs ts))"
  shows "distinct (laddrs (last ts))"
    and "\<And>t. t \<in> set (butlast ts) \<Longrightarrow> set (laddrs t) \<inter> set (laddrs (last ts)) = {}"
proof -
  have ts: "ts = butlast ts @ [last ts]" using assms(1) by simp
  have d: "distinct (concat (map laddrs (butlast ts)) @ laddrs (last ts))"
    using assms(2) by (subst (asm) ts) simp
  then show "distinct (laddrs (last ts))" by simp
  fix t assume "t \<in> set (butlast ts)"
  then have "set (laddrs t) \<subseteq> set (concat (map laddrs (butlast ts)))" by auto
  with d show "set (laddrs t) \<inter> set (laddrs (last ts)) = {}" by auto
qed

lemma repr_attach_in:
  assumes "repr h t" and "distinct (laddrs t)" and "path_ok t k"
  shows "repr \<lparr>dicts = dicts h @ [full_dict tx lv (length (lists h))],
               lists = (lists h)[a_list (node_at t k) :=
                          lists h ! a_list (node_at t k) @ [length (dicts h)]] @ [[]]\<rparr>
           (attach_in t k (AT (length (dicts h)) (length (lists h)) tx lv []))"
  using assms
proof (induction k arbitrary: t)
  case 0
  obtain a c tx' lv' ts where t: "t = AT a c tx' lv' ts" by (cases t)
  let ?h = "\<lparr>dicts = dicts h @ [full_dict tx lv (length (lists h))],
             lists = (lists h)[c := lists h ! c @ [length (dicts h)]] @ [[]]\<rparr>"
  from 0 t have r: "get_dict h a = Some (full_dict tx' lv' c)"
    "get_list h c = Some (map a_dict ts)" "\<forall>u \<in> set ts. repr h u" by auto
  have old: "repr ?h u" if "u \<in> set ts" for u
  proof -
    have "c \<notin> set (laddrs u)" using 0(2) that unfolding t by auto
    with r(3) that show ?thesis using repr_frame by blast
  qed
  have new: "repr ?h (AT (length (dicts h)) (length (lists h)) tx lv [])"
    by (simp add: get_dict_def get_list_def nth_append)
  have "get_dict ?h a = Some (full_dict tx' lv' c)"
    using r(1) by (auto simp: get_dict_def nth_append split: if_splits)
  moreover have "get_list ?h c = Some (map a_dict ts @ [length (dicts h)])"
    using r(2) by (auto simp: get_list_def nth_append split: if_splits)
  ultimately show ?case unfolding t using old new by auto
next
  case (Suc k)
  obtain a c tx' lv' ts where t: "t = AT a c tx' lv' ts" by (cases t)
  from Suc.prems t have ne: "ts \<noteq> []" and p: "path_ok (last ts) k" by auto
  let ?u = "last ts"
  let ?c = "a_list (node_at ?u k)"
  let ?h = "\<lparr>dicts = dicts h @ [full_dict tx lv (length (lists h))],
             lists = (lists h)[?c := lists h ! ?c @ [length (dicts h)]] @ [[]]\<rparr>"
  let ?n = "AT (length (dicts h)) (length (lists h)) tx lv []"
  from Suc.prems t have r: "get_dict h a = Some (full_dict tx' lv' c)"
    "get_list h c = Some (map a_dict ts)" "\<forall>u \<in> set ts. repr h u" by auto
  have dc: "distinct (concat (map laddrs ts))" and cn: "c \<notin> set (concat (map laddrs ts))"
    using Suc.prems(2) unfolding t by auto
  have cu: "?c \<in> set (laddrs ?u)"
    using laddrs_node_at[OF p] a_list_in_laddrs by blast
  have "set (laddrs ?u) \<subseteq> set (concat (map laddrs ts))"
    using last_in_set[OF ne] by auto
  with cu cn have cc: "?c \<noteq> c" by auto
  have ih: "repr ?h (attach_in ?u k ?n)"
    using Suc.IH[OF _ split_last_children(1)[OF ne dc] p] r(3) last_in_set[OF ne] by blast
  have old: "repr ?h u" if "u \<in> set (butlast ts)" for u
  proof -
    have "?c \<notin> set (laddrs u)" using split_last_children(2)[OF ne dc that] cu by auto
    moreover have "repr h u" using r(3) that in_set_butlastD by fastforce
    ultimately show ?thesis using repr_frame by blast
  qed
  have "get_dict ?h a = Some (full_dict tx' lv' c)"
    using r(1) by (auto simp: get_dict_def nth_append split: if_splits)
  moreover have "get_list ?h c = Some (map a_dict ts)"
    using r(2) cc by (auto simp: get_list_def nth_append split: if_splits)
  moreover have "map a_dict ts = map a_dict (butlast ts @ [attach_in ?u k ?n])"
  proof -
    have "map a_dict ts = map a_dict (butlast ts @ [last ts])" using ne by simp
    then show ?thesis by simp
  qed
  ultimately show ?case unfolding t using old ih by auto
qed

lemma chain_path: "chain_under t rs \<Longrightarrow> path_ok t (length rs)"
  by (induction rs arbitrary: t) auto

lemma chain_prefix: "chain_under t (rs @ rs') \<Longrightarrow> chain_under t rs"
  by (induction rs arbitrary: t) auto

lemma repr_children:
  "repr h t \<Longrightarrow> get_dict h (a_dict t) = Some (full_dict (a_heading t) (a_level t) (a_list t))
     \<and> get_list h (a_list t) = Some (map a_dict (a_children t))
     \<and> (\<forall>u \<in> set (a_children t). repr h u)"
  by (cases t) simp

lemma chain_top:
  assumes "chain_under t rs" and "repr h t" and "rs \<noteq> []"
  shows "list_last h (snd (last rs)) = Some (a_dict (node_at t (length rs)))"
  using assms
proof (induction rs arbitrary: t)
  case Nil
  then show ?case by simp
next
  case (Cons lr rs)
  obtain l r where lr: "lr = (l, r)" by (cases lr)
  from Cons.prems have r: "r = a_list t" and ne: "a_children t \<noteq> []"
    and ch: "chain_under (last (a_children t)) rs" unfolding lr by auto
  have lst: "get_list h (a_list t) = Some (map a_dict (a_children t))"
    and sub: "repr h (last (a_children t))"
    using repr_children[OF Cons.prems(2)] ne last_in_set by auto
  show ?case
  proof (cases "rs = []")
    case True
    then show ?thesis using r lst ne unfolding lr by (simp add: list_last_def last_map)
  next
    case False
    then show ?thesis using Cons.IH[OF ch sub] by simp
  qed
qed

lemma node_at_attach_in:
  "path_ok t k \<Longrightarrow> a_dict (node_at (attach_in t k n) k) = a_dict (node_at t k)
      \<and> a_list (node_at (attach_in t k n) k) = a_list (node_at t k)"
proof (induction k arbitrary: t)
  case 0
  then show ?case by simp
next
  case (Suc k)
  obtain a c tx lv ts where t: "t = AT a c tx lv ts" by (cases t)
  with Suc show ?case by simp
qed

lemma chain_level:
  assumes "chain_under t rs" and "rs \<noteq> []"
  shows "fst (last rs) = a_level (node_at t (length rs))"
  using assms
proof (induction rs arbitrary: t)
  case Nil
  then show ?case by simp
next
  case (Cons lr rs)
  obtain l r where lr: "lr = (l, r)" by (cases lr)
  from Cons.prems have l: "l = a_level (last (a_children t))"
    and ch: "chain_under (last (a_children t)) rs" unfolding lr by auto
  show ?case
  proof (cases "rs = []")
    case True
    then show ?thesis using l unfolding lr by simp
  next
    case False
    then show ?thesis using Cons.IH[OF ch] by simp
  qed
qed

lemma chain_attach:
  "chain_under t rs \<Longrightarrow>
     chain_under (attach_in t (length rs) n)
       (rs @ [(a_level n, a_list (node_at t (length rs)))])"
proof (induction rs arbitrary: t)
  case Nil
  obtain a c tx lv ts where t: "t = AT a c tx lv ts" by (cases t)
  show ?case unfolding t by simp
next
  case (Cons lr rs)
  obtain a c tx lv ts where t: "t = AT a c tx lv ts" by (cases t)
  obtain l r where lr: "lr = (l, r)" by (cases lr)
  from Cons.prems have ne: "ts \<noteq> []" and ch: "chain_under (last ts) rs"
    and l: "l = a_level (last ts)" and r: "r = c"
    unfolding t lr by auto
  have lev: "a_level (attach_in (last ts) (length rs) n) = a_level (last ts)"
    by (cases "last ts"; cases "length rs") auto
  show ?case unfolding t lr using Cons.IH[OF ch] ne l r lev by simp
qed

lemma path_attach_in: "path_ok t k \<Longrightarrow> path_ok (attach_in t k n) (Suc k)"
proof (induction k arbitrary: t)
  case 0
  obtain a c tx lv ts where t: "t = AT a c tx lv ts" by (cases t)
  show ?case unfolding t by simp
next
  case (Suc k)
  obtain a c tx lv ts where t: "t = AT a c tx lv ts" by (cases t)
  with Suc show ?case by simp
qed

lemma preorder_attach_in:
  "path_ok t k \<Longrightarrow> preorder (attach_in t k n) = preorder t @ preorder n"
proof (induction k arbitrary: t)
  case 0
  obtain a c tx lv ts where t: "t = AT a c tx lv ts" by (cases t)
  show ?case unfolding t by simp
next
  case (Suc k)
  obtain a c tx lv ts where t: "t = AT a c tx lv ts" by (cases t)
  from Suc.prems t have ne: "ts \<noteq> []" and p: "path_ok (last ts) k" by auto
  have "concat (map preorder ts) = concat (map preorder (butlast ts @ [last ts]))"
    using ne by simp
  then show ?case unfolding t using Suc.IH[OF p] by simp
qed

lemma laddrs_attach_in:
  "path_ok t k \<Longrightarrow> \<exists>xs ys. laddrs t = xs @ ys \<and> laddrs (attach_in t k n) = xs @ ys @ laddrs n"
proof (induction k arbitrary: t)
  case 0
  obtain a c tx lv ts where t: "t = AT a c tx lv ts" by (cases t)
  show ?case unfolding t by (rule exI[of _ "c # concat (map laddrs ts)"]) simp
next
  case (Suc k)
  obtain a c tx lv ts where t: "t = AT a c tx lv ts" by (cases t)
  from Suc.prems t have ne: "ts \<noteq> []" and p: "path_ok (last ts) k" by auto
  have e: "concat (map laddrs ts) = concat (map laddrs (butlast ts)) @ laddrs (last ts)"
  proof -
    have "concat (map laddrs ts) = concat (map laddrs (butlast ts @ [last ts]))"
      using ne by simp
    then show ?thesis by simp
  qed
  from Suc.IH[OF p] obtain xs ys where
    "laddrs (last ts) = xs @ ys" "laddrs (attach_in (last ts) k n) = xs @ ys @ laddrs n"
    by blast
  then show ?case unfolding t
    by (intro exI[of _ "c # concat (map laddrs (butlast ts)) @ xs"] exI[of _ ys]) (simp add: e)
qed

lemma daddrs_attach_in:
  "path_ok t k \<Longrightarrow> \<exists>xs ys. daddrs t = xs @ ys \<and> daddrs (attach_in t k n) = xs @ ys @ daddrs n"
proof (induction k arbitrary: t)
  case 0
  obtain a c tx lv ts where t: "t = AT a c tx lv ts" by (cases t)
  show ?case unfolding t by (rule exI[of _ "a # concat (map daddrs ts)"]) simp
next
  case (Suc k)
  obtain a c tx lv ts where t: "t = AT a c tx lv ts" by (cases t)
  from Suc.prems t have ne: "ts \<noteq> []" and p: "path_ok (last ts) k" by auto
  have e: "concat (map daddrs ts) = concat (map daddrs (butlast ts)) @ daddrs (last ts)"
  proof -
    have "concat (map daddrs ts) = concat (map daddrs (butlast ts @ [last ts]))"
      using ne by simp
    then show ?thesis by simp
  qed
  from Suc.IH[OF p] obtain xs ys where
    "daddrs (last ts) = xs @ ys" "daddrs (attach_in (last ts) k n) = xs @ ys @ daddrs n"
    by blast
  then show ?case unfolding t
    by (intro exI[of _ "a # concat (map daddrs (butlast ts)) @ xs"] exI[of _ ys]) (simp add: e)
qed

lemma repr_bounds:
  "repr h t \<Longrightarrow> (\<forall>c \<in> set (laddrs t). c < length (lists h))
                 \<and> (\<forall>a \<in> set (daddrs t). a < length (dicts h))"
proof (induction t)
  case (AT a c tx lv ts)
  then show ?case
    by (auto simp: get_dict_def get_list_def split: if_splits)
qed

lemma stack_ok_prefix: "stack_ok h F (bs @ bs') \<Longrightarrow> stack_ok h F bs"
  by (cases bs) (auto simp: stack_ok_def dest: chain_prefix)

lemma stack_ok_dropWhile:
  assumes "stack_ok h F (rev stack)"
  shows "stack_ok h F (rev (dropWhile P stack))"
proof -
  have "rev stack = rev (dropWhile P stack) @ rev (takeWhile P stack)"
    by (metis rev_append takeWhile_dropWhile_id)
  with assms show ?thesis using stack_ok_prefix by metis
qed

lemma forest_bounds:
  assumes "\<forall>t \<in> set F. repr h t"
  shows "\<forall>c \<in> set (concat (map laddrs F)). c < length (lists h)"
    and "\<forall>a \<in> set (concat (map daddrs F)). a < length (dicts h)"
  using assms repr_bounds by fastforce+

lemma build_step_root:
  assumes inv: "build_inv h stack F"
    and lv: "sec_level s \<noteq> 0"
    and top: "dropWhile (\<lambda>(l, _). l \<ge> sec_level s) stack = []"
  shows "\<exists>h' stack' F'. build_step (h, stack) s = Some (h', stack') \<and> build_inv h' stack' F'
           \<and> concat (map preorder F') = concat (map preorder F) @ [(sec_text s, sec_level s)]"
proof -
  let ?a = "length (dicts h)" and ?cn = "length (lists h)"
  let ?n = "AT ?a ?cn (sec_text s) (sec_level s) []"
  let ?x = "map a_dict F @ [?a]"
  let ?h4 = "\<lparr>dicts = dicts h @ [full_dict (sec_text s) (sec_level s) ?cn],
              lists = (lists h)[nested_toc := ?x] @ [[], [?a]]\<rparr>"
  from inv have toc: "get_list h nested_toc = Some (map a_dict F)"
    and rp: "\<forall>t \<in> set F. repr h t"
    and dl: "distinct (concat (map laddrs F))" and nt: "nested_toc \<notin> set (concat (map laddrs F))"
    and dd: "distinct (concat (map daddrs F))"
    and od: "\<forall>t \<in> set F. ordered t"
    by (auto simp: build_inv_def)
  have len: "nested_toc < length (lists h)" and l0: "lists h ! nested_toc = map a_dict F"
    using toc by (auto simp: get_list_def split: if_splits)
  have step: "build_step (h, stack) s = Some (?h4, [(sec_level s, Suc ?cn)])"
    using lv len l0
    by (simp add: build_step_def Let_def top new_dict_def list_append_def get_list_def
          ensure_children_def get_dict_def new_list_def full_dict_def nth_append)
  have r_old: "repr ?h4 t" if "t \<in> set F" for t
  proof -
    have "nested_toc \<notin> set (laddrs t)" using nt that by auto
    with rp that show ?thesis using repr_frame by blast
  qed
  have r_new: "repr ?h4 ?n"
    by (simp add: get_dict_def get_list_def nth_append)
  have b: "\<forall>c \<in> set (concat (map laddrs F)). c < ?cn"
    "\<forall>a \<in> set (concat (map daddrs F)). a < ?a"
    using forest_bounds[OF rp] by blast+
  have f1: "?cn \<notin> set (concat (map laddrs F))"
  proof
    assume "?cn \<in> set (concat (map laddrs F))"
    with b(1) have "?cn < ?cn" by blast
    then show False by simp
  qed
  have f2: "Suc ?cn \<notin> set (concat (map laddrs F))"
  proof
    assume "Suc ?cn \<in> set (concat (map laddrs F))"
    with b(1) have "Suc ?cn < ?cn" by blast
    then show False by simp
  qed
  have f3: "?a \<notin> set (concat (map daddrs F))"
  proof
    assume "?a \<in> set (concat (map daddrs F))"
    with b(2) have "?a < ?a" by blast
    then show False by simp
  qed
  have i1: "get_list ?h4 nested_toc = Some (map a_dict (F @ [?n]))"
    using len by (simp add: get_list_def nth_append)
  have i2: "\<forall>t \<in> set (F @ [?n]). repr ?h4 t"
    using r_old r_new by auto
  have i3: "distinct (concat (map laddrs (F @ [?n])))"
    "nested_toc \<notin> set (concat (map laddrs (F @ [?n])))"
    "distinct (concat (map daddrs (F @ [?n])))"
    using dl dd nt f1 f3 len by (auto simp: nested_toc_def)
  have i4: "stack_ok ?h4 (F @ [?n]) (rev [(sec_level s, Suc ?cn)])"
    using f2 by (simp add: stack_ok_def get_list_def nth_append nested_toc_def)
  have i5: "\<forall>t \<in> set (F @ [?n]). ordered t"
    using od by simp
  have inv': "build_inv ?h4 [(sec_level s, Suc ?cn)] (F @ [?n])"
    unfolding build_inv_def using i1 i2 i3 i4 i5 by blast
  show ?thesis using step inv' by (intro exI conjI) (assumption, assumption, simp)
qed

lemma path_ok_Suc: "path_ok t (Suc k) \<Longrightarrow> path_ok t k"
proof (induction k arbitrary: t)
  case 0
  then show ?case by simp
next
  case (Suc k)
  then show ?case by (metis path_ok.simps(2))
qed

lemma forest_split:
  assumes "F \<noteq> []"
  shows "concat (map f F) = concat (map f (butlast F)) @ f (last F)"
proof -
  have "concat (map f F) = concat (map f (butlast F @ [last F]))" using assms by simp
  then show ?thesis by simp
qed

lemma a_level_attach_in [simp]: "a_level (attach_in t k n) = a_level t"
  by (cases t; cases k) auto

lemma ordered_attach_in:
  assumes "ordered t" and "path_ok t k" and "a_level (node_at t k) < a_level n"
    and "ordered n"
  shows "ordered (attach_in t k n)"
  using assms
proof (induction k arbitrary: t)
  case 0
  obtain a c tx lv ts where t: "t = AT a c tx lv ts" by (cases t)
  with 0 show ?case by auto
next
  case (Suc k)
  obtain a c tx lv ts where t: "t = AT a c tx lv ts" by (cases t)
  from Suc.prems t have ne: "ts \<noteq> []" and p: "path_ok (last ts) k"
    and o: "\<forall>u \<in> set ts. lv < a_level u \<and> ordered u"
    and l: "a_level (node_at (last ts) k) < a_level n" by auto
  have "ordered (attach_in (last ts) k n)"
    using Suc.IH[OF _ p l Suc.prems(4)] o last_in_set[OF ne] by blast
  moreover have "lv < a_level (last ts)" using o last_in_set[OF ne] by blast
  moreover have "\<forall>u \<in> set (butlast ts). lv < a_level u \<and> ordered u"
    using o in_set_butlastD by fastforce
  ultimately show ?case unfolding t by auto
qed

lemma build_step_child:
  assumes inv: "build_inv h stack F"
    and lv: "sec_level s \<noteq> 0"
    and top: "dropWhile (\<lambda>(l, _). l \<ge> sec_level s) stack = (l, r) # rest"
  shows "\<exists>h' stack' F'. build_step (h, stack) s = Some (h', stack') \<and> build_inv h' stack' F'
           \<and> concat (map preorder F') = concat (map preorder F) @ [(sec_text s, sec_level s)]"
proof -
  let ?a = "length (dicts h)" and ?cn = "length (lists h)"
  let ?n = "AT ?a ?cn (sec_text s) (sec_level s) []"
  let ?node0 = "[(''heading'', PStr (sec_text s)), (''level'', PInt (sec_level s))]"
  let ?stack1 = "(l, r) # rest"
  from inv have toc: "get_list h nested_toc = Some (map a_dict F)"
    and rp: "\<forall>t \<in> set F. repr h t"
    and dl: "distinct (concat (map laddrs F))" and nt: "nested_toc \<notin> set (concat (map laddrs F))"
    and dd: "distinct (concat (map daddrs F))"
    and od: "\<forall>t \<in> set F. ordered t"
    and so: "stack_ok h F (rev stack)"
    by (auto simp: build_inv_def)
  have so1: "stack_ok h F (rev ?stack1)"
    using stack_ok_dropWhile[OF so, of "\<lambda>(l, _). l \<ge> sec_level s"] unfolding top .
  obtain l1 r1 rs where bs: "rev ?stack1 = (l1, r1) # rs"
    by (cases "rev ?stack1") auto
  have lr_last: "(l, r) = last ((l1, r1) # rs)"
    using arg_cong[OF bs, of last] by simp
  then have r_last: "r = snd (last ((l1, r1) # rs))" and l_last: "l = fst (last ((l1, r1) # rs))"
    by (metis snd_conv, metis fst_conv)
  have "\<not> (\<lambda>(l, _). l \<ge> sec_level s) (hd (dropWhile (\<lambda>(l, _). l \<ge> sec_level s) stack))"
    by (rule hd_dropWhile) (simp add: top)
  then have l_lt: "l < sec_level s" unfolding top by simp
  let ?t = "last F"
  from so1 have F: "F \<noteq> []" and g1: "get_list h r1 = Some [a_dict ?t]"
    and l1: "l1 = a_level ?t"
    and r1n: "r1 \<notin> set (concat (map laddrs F))" and r10: "r1 \<noteq> nested_toc"
    and ch: "chain_under ?t rs"
    unfolding bs stack_ok_def by auto
  let ?k = "length rs"
  have rt: "repr h ?t" using rp F by simp
  have path: "path_ok ?t ?k" using chain_path[OF ch] .
  let ?p = "node_at ?t ?k"
  let ?c = "a_list ?p"
  have rpp: "repr h ?p" using repr_node_at[OF rt path] .
  note pp = repr_children[OF rpp]
  have c_in_t: "?c \<in> set (laddrs ?t)"
    using laddrs_node_at[OF path] a_list_in_laddrs by blast
  have t_sub: "set (laddrs ?t) \<subseteq> set (concat (map laddrs F))"
    using F by (subst forest_split[OF F]) simp
  have c_in: "?c \<in> set (concat (map laddrs F))" using c_in_t t_sub by blast
  have bl: "\<forall>c \<in> set (concat (map laddrs F)). c < ?cn"
    and bd: "\<forall>a \<in> set (concat (map daddrs F)). a < ?a"
    using forest_bounds[OF rp] by blast+
  have c_lt: "?c < ?cn" using bl c_in by blast
  have c0: "?c \<noteq> nested_toc" using nt c_in by auto
  have cr1: "?c \<noteq> r1" using r1n c_in by auto
  have r1_lt: "r1 < ?cn" using g1 by (auto simp: get_list_def split: if_splits)
  have pa_lt: "a_dict ?p < ?a" using pp by (auto simp: get_dict_def split: if_splits)
  \<comment> \<open>the parent found through the top of the stack\<close>
  have top_h: "list_last h r = Some (a_dict ?p)"
  proof (cases "rs = []")
    case True
    then show ?thesis using r_last g1 by (simp add: list_last_def)
  next
    case False
    then show ?thesis using r_last chain_top[OF ch rt] by simp
  qed
  let ?h1 = "h\<lparr>dicts := dicts h @ [?node0]\<rparr>"
  let ?h3 = "?h1\<lparr>lists := (lists h)[?c := lists h ! ?c @ [?a]]\<rparr>"
  let ?h4 = "\<lparr>dicts = dicts h @ [full_dict (sec_text s) (sec_level s) ?cn],
              lists = (lists h)[?c := lists h ! ?c @ [?a]] @ [[]]\<rparr>"
  have "list_last ?h1 r = list_last h r"
    by (simp add: list_last_def get_list_def)
  then have s1: "list_last ?h1 r = Some (a_dict ?p)"
    using top_h by simp
  have gd1: "get_dict ?h1 (a_dict ?p) = Some (full_dict (a_heading ?p) (a_level ?p) ?c)"
    using pp pa_lt by (auto simp: get_dict_def nth_append split: if_splits)
  have s2: "ensure_children (a_dict ?p) ?h1 = Some ?h1"
    using gd1 by (simp add: ensure_children_def full_dict_def)
  have s3: "children_of ?h1 (a_dict ?p) = Some ?c"
    using gd1 by (simp add: children_of_def full_dict_def)
  have s4: "list_append ?c ?a ?h1 = Some ?h3"
    using c_lt by (simp add: list_append_def get_list_def)
  have s5: "ensure_children ?a ?h3 = Some ?h4"
    by (simp add: ensure_children_def get_dict_def new_list_def full_dict_def)
  \<comment> \<open>the new tree\<close>
  let ?t' = "attach_in ?t ?k ?n"
  have dt: "distinct (laddrs ?t)" using dl by (subst (asm) forest_split[OF F]) simp
  have rt': "repr ?h4 ?t'" using repr_attach_in[OF rt dt path] .
  have ch': "chain_under ?t' (rs @ [(sec_level s, ?c)])"
    using chain_attach[OF ch, of ?n] by simp
  have top_level: "a_level ?p = l"
  proof (cases "rs = []")
    case True
    then show ?thesis using l_last l1 by simp
  next
    case False
    then show ?thesis using l_last chain_level[OF ch] by simp
  qed
  have ot': "ordered ?t'"
    using ordered_attach_in[OF _ path, of ?n] od F top_level l_lt by simp
  have path': "path_ok ?t' ?k" using path_ok_Suc[OF path_attach_in[OF path]] .
  have same: "a_dict (node_at ?t' ?k) = a_dict ?p" "a_list (node_at ?t' ?k) = ?c"
    using node_at_attach_in[OF path] by auto
  have g1': "get_list ?h4 r1 = Some [a_dict ?t']"
    using g1 cr1 r1_lt by (auto simp: get_list_def nth_append split: if_splits)
  have s6: "list_last ?h4 r = Some (a_dict ?p)"
  proof (cases "rs = []")
    case True
    then show ?thesis using r_last g1' by (simp add: list_last_def)
  next
    case False
    then show ?thesis
      using r_last chain_top[OF chain_prefix[OF ch'] rt'] same by simp
  qed
  have s7: "children_of ?h4 (a_dict ?p) = Some ?c"
    using repr_children[OF repr_node_at[OF rt' path']] same
    by (simp add: children_of_def full_dict_def)
  have step: "build_step (h, stack) s = Some (?h4, (sec_level s, ?c) # ?stack1)"
    using lv by (simp add: build_step_def Let_def top new_dict_def s1 s2 s3 s4 s5 s6 s7)
  \<comment> \<open>the invariant\<close>
  let ?F' = "butlast F @ [?t']"
  have i1: "get_list ?h4 nested_toc = Some (map a_dict ?F')"
  proof -
    have "map a_dict F = map a_dict (butlast F @ [last F])" using F by simp
    then have "map a_dict ?F' = map a_dict F" by simp
    moreover have "get_list ?h4 nested_toc = get_list h nested_toc"
      using toc c0 by (auto simp: get_list_def nth_append split: if_splits)
    ultimately show ?thesis using toc by simp
  qed
  have r_old: "repr ?h4 u" if "u \<in> set (butlast F)" for u
  proof -
    have "?c \<notin> set (laddrs u)"
      using split_last_children(2)[OF F dl that] c_in_t by auto
    moreover have "repr h u" using rp that in_set_butlastD by fastforce
    ultimately show ?thesis using repr_frame by blast
  qed
  have i2: "\<forall>u \<in> set ?F'. repr ?h4 u" using r_old rt' by auto
  obtain xs ys where la: "laddrs ?t = xs @ ys" "laddrs ?t' = xs @ ys @ laddrs ?n"
    using laddrs_attach_in[OF path] by blast
  obtain xd yd where da: "daddrs ?t = xd @ yd" "daddrs ?t' = xd @ yd @ daddrs ?n"
    using daddrs_attach_in[OF path] by blast
  have fresh_l: "?cn \<notin> set (concat (map laddrs F))"
  proof
    assume "?cn \<in> set (concat (map laddrs F))"
    with bl have "?cn < ?cn" by blast
    then show False by simp
  qed
  have fresh_d: "?a \<notin> set (concat (map daddrs F))"
  proof
    assume "?a \<in> set (concat (map daddrs F))"
    with bd have "?a < ?a" by blast
    then show False by simp
  qed
  have lF': "concat (map laddrs ?F') = concat (map laddrs F) @ [?cn]"
    using la by (simp add: forest_split[OF F, of laddrs])
  have dF': "concat (map daddrs ?F') = concat (map daddrs F) @ [?a]"
    using da by (simp add: forest_split[OF F, of daddrs])
  have cn0: "?cn \<noteq> nested_toc"
    using toc by (auto simp: get_list_def nested_toc_def split: if_splits)
  have i3: "distinct (concat (map laddrs ?F'))" "nested_toc \<notin> set (concat (map laddrs ?F'))"
    "distinct (concat (map daddrs ?F'))"
    unfolding lF' dF' using dl dd nt fresh_l fresh_d cn0 by auto
  have "r1 \<notin> set (concat (map laddrs ?F'))"
    unfolding lF' using r1n r1_lt by auto
  then have "stack_ok ?h4 ?F' ((l1, r1) # rs @ [(sec_level s, ?c)])"
    unfolding stack_ok_def using g1' r10 ch' l1 by simp
  moreover have "rev ((sec_level s, ?c) # ?stack1) = (l1, r1) # rs @ [(sec_level s, ?c)]"
    using bs by simp
  ultimately have i4: "stack_ok ?h4 ?F' (rev ((sec_level s, ?c) # ?stack1))"
    by simp
  have i5: "\<forall>u \<in> set ?F'. ordered u"
    using od ot' in_set_butlastD by fastforce
  have inv': "build_inv ?h4 ((sec_level s, ?c) # ?stack1) ?F'"
    unfolding build_inv_def using i1 i2 i3 i4 i5 by blast
  have pre: "concat (map preorder ?F') = concat (map preorder F) @ [(sec_text s, sec_level s)]"
    using preorder_attach_in[OF path, of ?n] by (simp add: forest_split[OF F, of preorder])
  show ?thesis using step inv' pre by blast
qed

lemma build_step_inv:
  assumes "build_inv h stack F"
  shows "\<exists>h' stack' F'. build_step (h, stack) s = Some (h', stack') \<and> build_inv h' stack' F'
           \<and> concat (map preorder F')
              = concat (map preorder F) @ (if sec_level s = 0 then [] else [(sec_text s, sec_level s)])"
proof (cases "sec_level s = 0")
  case True
  then have "build_step (h, stack) s = Some (h, stack)"
    by (simp add: build_step_def)
  with assms True show ?thesis by auto
next
  case False
  show ?thesis
  proof (cases "dropWhile (\<lambda>(l, _). l \<ge> sec_level s) stack")
    case Nil
    from build_step_root[OF assms False Nil] False show ?thesis by simp
  next
    case (Cons lr rest)
    obtain l r where "lr = (l, r)" by (cases lr)
    with Cons build_step_child[OF assms False] False show ?thesis by simp
  qed
qed

lemma build_loop_inv:
  assumes "build_inv h stack F"
  shows "\<exists>h' stack' F'. build_loop (h, stack) secs = Some (h', stack') \<and> build_inv h' stack' F'
           \<and> concat (map preorder F') = concat (map preorder F) @ flat_headings secs"
  using assms
proof (induction secs arbitrary: h stack F)
  case Nil
  then show ?case by (auto simp: flat_headings_def)
next
  case (Cons s secs)
  from build_step_inv[OF Cons.prems, of s] obtain h1 stack1 F1 where
    1: "build_step (h, stack) s = Some (h1, stack1)" "build_inv h1 stack1 F1"
    "concat (map preorder F1)
       = concat (map preorder F) @ (if sec_level s = 0 then [] else [(sec_text s, sec_level s)])"
    by blast
  from Cons.IH[OF 1(2)] obtain h2 stack2 F2 where
    2: "build_loop (h1, stack1) secs = Some (h2, stack2)" "build_inv h2 stack2 F2"
    "concat (map preorder F2) = concat (map preorder F1) @ flat_headings secs"
    by blast
  have "build_loop (h, stack) (s # secs) = Some (h2, stack2)"
    using 1(1) 2(1) by simp
  moreover have "concat (map preorder F2) = concat (map preorder F) @ flat_headings (s # secs)"
    using 1(3) 2(3) by (simp add: flat_headings_def)
  ultimately show ?case using 2(2) by blast
qed

lemma build_inv_init: "build_inv (fst build_init) (snd build_init) []"
  by (simp add: build_inv_def build_init_def stack_ok_def get_list_def nested_toc_def)

lemma build_loop_result:
  "\<exists>h stack F. build_loop build_init secs = Some (h, stack) \<and> build_inv h stack F
      \<and> concat (map preorder F) = flat_headings secs"
proof -
  have "build_init = (fst build_init, snd build_init)" by simp
  with build_loop_inv[OF build_inv_init, of secs] show ?thesis by (metis append_Nil concat.simps(1) list.simps(8))
qed

lemma repr_dict_frame:
  assumes "repr h t" and "lists h' = lists h" and "length (dicts h') = length (dicts h)"
    and "\<forall>a \<in> set (daddrs t). dicts h' ! a = dicts h ! a"
  shows "repr h' t"
  using assms
proof (induction t)
  case (AT a c tx lv ts)
  have "repr h' u" if "u \<in> set ts" for u
    using AT that by auto
  then show ?case using AT.prems by (auto simp: get_dict_def get_list_def split: if_splits)
qed

lemma clean_repr_dict_frame:
  assumes "clean_repr h t" and "lists h' = lists h" and "length (dicts h') = length (dicts h)"
    and "\<forall>a \<in> set (daddrs t). dicts h' ! a = dicts h ! a"
  shows "clean_repr h' t"
  using assms
proof (induction t)
  case (AT a c tx lv ts)
  have "clean_repr h' u" if "u \<in> set ts" for u
    using AT that by auto
  then show ?case using AT.prems by (auto simp: get_dict_def get_list_def split: if_splits)
qed

lemma cleanup_node:
  assumes r: "repr h (AT a c tx lv ts)"
    and d: "distinct (daddrs (AT a c tx lv ts))"
    and sub: "ts \<noteq> [] \<Longrightarrow> \<exists>h1. cleanup_nodes depth (map a_dict ts) h = Some h1
               \<and> (\<forall>t \<in> set ts. clean_repr h1 t) \<and> lists h1 = lists h
               \<and> length (dicts h1) = length (dicts h)
               \<and> (\<forall>x. x \<notin> set (concat (map daddrs ts)) \<longrightarrow> dicts h1 ! x = dicts h ! x)"
  shows "\<exists>h'. cleanup_nodes (Suc depth) (a # rest) h = cleanup_nodes (Suc depth) rest h'
           \<and> clean_repr h' (AT a c tx lv ts) \<and> lists h' = lists h
           \<and> length (dicts h') = length (dicts h)
           \<and> (\<forall>x. x \<notin> set (daddrs (AT a c tx lv ts)) \<longrightarrow> dicts h' ! x = dicts h ! x)"
proof -
  from r have gd: "get_dict h a = Some (full_dict tx lv c)"
    and gl: "get_list h c = Some (map a_dict ts)" by auto
  have co: "children_of h a = Some c" using gd by (simp add: children_of_def full_dict_def)
  have mo: "map_of (full_dict tx lv c) ''children'' = Some (PRef c)" by (simp add: full_dict_def)
  show ?thesis
  proof (cases "ts = []")
    case True
    let ?h' = "h\<lparr>dicts := (dicts h)[a := base_dict tx lv]\<rparr>"
    have del: "delete_children a h = Some ?h'"
      using gd by (simp add: delete_children_def full_dict_def base_dict_def)
    have "cleanup_nodes (Suc depth) (a # rest) h = cleanup_nodes (Suc depth) rest ?h'"
      using True by (simp add: gd gl co mo del)
    moreover have "clean_repr ?h' (AT a c tx lv ts)"
      using True gd by (auto simp: get_dict_def split: if_splits)
    ultimately show ?thesis by (intro exI[of _ ?h']) auto
  next
    case False
    from sub[OF False] obtain h1 where h1: "cleanup_nodes depth (map a_dict ts) h = Some h1"
      "\<forall>t \<in> set ts. clean_repr h1 t" "lists h1 = lists h" "length (dicts h1) = length (dicts h)"
      "\<forall>x. x \<notin> set (concat (map daddrs ts)) \<longrightarrow> dicts h1 ! x = dicts h ! x"
      by blast
    have "get_list h1 c = get_list h c"
      using h1(3) by (simp add: get_list_def)
    then have gl1: "get_list h1 c = Some (map a_dict ts)"
      using gl by simp
    have "a \<notin> set (concat (map daddrs ts))" using d by simp
    then have "get_dict h1 a = get_dict h a"
      using h1(4,5) by (simp add: get_dict_def)
    then have gd1: "get_dict h1 a = Some (full_dict tx lv c)"
      using gd by simp
    have "cleanup_nodes (Suc depth) (a # rest) h = cleanup_nodes (Suc depth) rest h1"
      using False by (simp add: gd gl co mo h1(1) gl1)
    moreover have "clean_repr h1 (AT a c tx lv ts)"
      using False gd1 gl1 h1(2) by simp
    moreover have "\<forall>x. x \<notin> set (daddrs (AT a c tx lv ts)) \<longrightarrow> dicts h1 ! x = dicts h ! x"
      using h1(5) by simp
    ultimately show ?thesis using h1(3,4) by blast
  qed
qed

lemma cleanup_forest:
  assumes "\<forall>t \<in> set F. repr h t" and "distinct (concat (map daddrs F))"
    and "\<forall>t \<in> set F. fits depth t"
  shows "\<exists>h'. cleanup_nodes depth (map a_dict F) h = Some h'
           \<and> (\<forall>t \<in> set F. clean_repr h' t) \<and> lists h' = lists h
           \<and> length (dicts h') = length (dicts h)
           \<and> (\<forall>x. x \<notin> set (concat (map daddrs F)) \<longrightarrow> dicts h' ! x = dicts h ! x)"
  using assms
proof (induction depth arbitrary: h F)
  case 0
  then have "F = []" by (cases F) auto
  then show ?case by simp
next
  case (Suc depth)
  from Suc.prems show ?case
  proof (induction F arbitrary: h)
    case Nil
    show ?case by simp
  next
    case (Cons t F)
    obtain a c tx lv ts where t: "t = AT a c tx lv ts" by (cases t)
    have rt: "repr h (AT a c tx lv ts)" using Cons.prems(1) t by simp
    have dt: "distinct (daddrs (AT a c tx lv ts))" using Cons.prems(2) t by simp
    have sub: "\<exists>h1. cleanup_nodes depth (map a_dict ts) h = Some h1
               \<and> (\<forall>t \<in> set ts. clean_repr h1 t) \<and> lists h1 = lists h
               \<and> length (dicts h1) = length (dicts h)
               \<and> (\<forall>x. x \<notin> set (concat (map daddrs ts)) \<longrightarrow> dicts h1 ! x = dicts h ! x)"
    proof (rule Suc.IH)
      show "\<forall>u \<in> set ts. repr h u" using rt by simp
      show "distinct (concat (map daddrs ts))" using dt by simp
      show "\<forall>u \<in> set ts. fits depth u" using Cons.prems(3) t by simp
    qed
    from cleanup_node[OF rt dt sub, where rest = "map a_dict F"] obtain h1 where
      h1: "cleanup_nodes (Suc depth) (a # map a_dict F) h
             = cleanup_nodes (Suc depth) (map a_dict F) h1"
      "clean_repr h1 (AT a c tx lv ts)" "lists h1 = lists h"
      "length (dicts h1) = length (dicts h)"
      "\<forall>x. x \<notin> set (daddrs (AT a c tx lv ts)) \<longrightarrow> dicts h1 ! x = dicts h ! x"
      by blast
    have disj: "set (daddrs t) \<inter> set (concat (map daddrs F)) = {}"
      using Cons.prems(2) by auto
    have rF: "\<forall>u \<in> set F. repr h1 u"
    proof
      fix u assume u: "u \<in> set F"
      then have "set (daddrs u) \<subseteq> set (concat (map daddrs F))" by auto
      with disj have "\<forall>x \<in> set (daddrs u). dicts h1 ! x = dicts h ! x"
        using h1(5) t by blast
      with Cons.prems(1) u h1(3,4) show "repr h1 u"
        using repr_dict_frame by (metis list.set_intros(2))
    qed
    have dF: "distinct (concat (map daddrs F))" using Cons.prems(2) by simp
    have fF: "\<forall>u \<in> set F. fits (Suc depth) u" using Cons.prems(3) by simp
    from Cons.IH[OF rF dF fF] obtain h2 where
      h2: "cleanup_nodes (Suc depth) (map a_dict F) h1 = Some h2"
      "\<forall>u \<in> set F. clean_repr h2 u" "lists h2 = lists h1"
      "length (dicts h2) = length (dicts h1)"
      "\<forall>x. x \<notin> set (concat (map daddrs F)) \<longrightarrow> dicts h2 ! x = dicts h1 ! x"
      by blast
    have "\<forall>x \<in> set (daddrs t). dicts h2 ! x = dicts h1 ! x"
      using disj h2(5) by blast
    with h1(2) h2(3,4) have ct: "clean_repr h2 t"
      unfolding t using clean_repr_dict_frame by blast
    have "cleanup_nodes (Suc depth) (map a_dict (t # F)) h = Some h2"
      using h1(1) h2(1) t by simp
    moreover have "\<forall>u \<in> set (t # F). clean_repr h2 u" using ct h2(2) by simp
    moreover have "lists h2 = lists h" "length (dicts h2) = length (dicts h)"
      using h1(3,4) h2(3,4) by simp_all
    moreover have "\<forall>x. x \<notin> set (concat (map daddrs (t # F))) \<longrightarrow> dicts h2 ! x = dicts h ! x"
      using h1(5) h2(5) t by simp
    ultimately show ?case by blast
  qed
qed

lemma dump_forest:
  assumes "\<forall>t \<in> set F. clean_repr h t" and "\<forall>t \<in> set F. fits depth t"
  shows "dump_nodes depth h (map a_dict F) = Some (map yaml_of F)"
  using assms
proof (induction depth arbitrary: F)
  case 0
  then have "F = []" by (cases F) auto
  then show ?case by simp
next
  case (Suc depth)
  from Suc.prems show ?case
  proof (induction F)
    case Nil
    show ?case by simp
  next
    case (Cons t F)
    obtain a c tx lv ts where t: "t = AT a c tx lv ts" by (cases t)
    from Cons.prems t have gd: "get_dict h a = Some (if ts = [] then base_dict tx lv else full_dict tx lv c)"
      and gl: "ts \<noteq> [] \<Longrightarrow> get_list h c = Some (map a_dict ts)"
      and cs: "\<forall>u \<in> set ts. clean_repr h u" and fs: "\<forall>u \<in> set ts. fits depth u"
      by auto
    have sub: "dump_nodes depth h (map a_dict ts) = Some (map yaml_of ts)"
      using Suc.IH[OF cs fs] .
    have rest: "dump_nodes (Suc depth) h (map a_dict F) = Some (map yaml_of F)"
      using Cons by simp
    show ?case
    proof (cases "ts = []")
      case True
      then show ?thesis unfolding t using gd rest by (simp add: base_dict_def)
    next
      case False
      then show ?thesis unfolding t using gd gl sub rest by (simp add: full_dict_def)
    qed
  qed
qed

lemma extract_headings_tree:
  "extract_headings (yaml_of t # rest) = map (YStr \<circ> fst) (preorder t) @ extract_headings rest"
proof (induction t arbitrary: rest)
  case (AT a c tx lv ts)
  have forest: "extract_headings (map yaml_of us)
                  = map (YStr \<circ> fst) (concat (map preorder us))"
    if "set us \<subseteq> set ts" for us
    using that
  proof (induction us)
    case Nil
    show ?case by simp
  next
    case (Cons u us)
    then show ?case using AT.IH[of u "map yaml_of us"] by simp
  qed
  show ?case
  proof (cases "ts = []")
    case True
    then show ?thesis by simp
  next
    case False
    then show ?thesis using forest[of ts] by simp
  qed
qed

lemma extract_headings_forest:
  "extract_headings (map yaml_of F) = map (YStr \<circ> fst) (concat (map preorder F))"
  by (induction F) (simp_all add: extract_headings_tree)

lemma preorder_root: "(a_heading t, a_level t) \<in> set (preorder t)"
  by (cases t) simp

lemma ordered_fits:
  assumes "ordered t" and "\<forall>x \<in> set (preorder t). snd x \<le> M" and "M - a_level t < int d"
  shows "fits d t"
  using assms
proof (induction d arbitrary: t)
  case 0
  have "a_level t \<le> M" using 0(2) preorder_root[of t] by fastforce
  with 0(3) show ?case by simp
next
  case (Suc d)
  obtain a c tx lv ts where t: "t = AT a c tx lv ts" by (cases t)
  have "fits d u" if u: "u \<in> set ts" for u
  proof (rule Suc.IH)
    show "ordered u" using Suc.prems(1) t u by simp
    show "\<forall>x \<in> set (preorder u). snd x \<le> M" using Suc.prems(2) t u by auto
    have "lv < a_level u" using Suc.prems(1) t u by simp
    then show "M - a_level u < int d" using Suc.prems(3) t by simp
  qed
  then show ?case unfolding t by simp
qed

lemma generate_outline:
  assumes "\<forall>s \<in> set flat. 0 \<le> sec_level s \<and> sec_level s \<le> int depth"
  shows "\<exists>h F. build_nested_toc depth flat = Some h
           \<and> serialize_toc depth h = Some (map yaml_of F)
           \<and> concat (map preorder F) = flat_headings flat"
proof -
  obtain h0 stack F where loop: "build_loop build_init flat = Some (h0, stack)"
    and inv: "build_inv h0 stack F"
    and pre: "concat (map preorder F) = flat_headings flat"
    using build_loop_result by blast
  from inv have toc: "get_list h0 nested_toc = Some (map a_dict F)"
    and rp: "\<forall>t \<in> set F. repr h0 t"
    and dd: "distinct (concat (map daddrs F))"
    and od: "\<forall>t \<in> set F. ordered t"
    by (auto simp: build_inv_def)
  have lev: "1 \<le> snd x \<and> snd x \<le> int depth" if "x \<in> set (flat_headings flat)" for x
    using that assms by (auto simp: flat_headings_def)
  have fit: "\<forall>t \<in> set F. fits depth t"
  proof
    fix t assume t: "t \<in> set F"
    then have sub: "set (preorder t) \<subseteq> set (flat_headings flat)"
      unfolding pre[symmetric] by auto
    have "1 \<le> a_level t" using lev[of "(a_heading t, a_level t)"] sub preorder_root[of t] by auto
    then have "int depth - a_level t < int depth" by simp
    moreover have "\<forall>x \<in> set (preorder t). snd x \<le> int depth" using lev sub by blast
    ultimately show "fits depth t" using ordered_fits od t by blast
  qed
  from cleanup_forest[OF rp dd fit] obtain h where
    cl: "cleanup_nodes depth (map a_dict F) h0 = Some h"
    and cr: "\<forall>t \<in> set F. clean_repr h t" and ls: "lists h = lists h0"
    by blast
  have b: "build_nested_toc depth flat = Some h"
    using loop toc cl by (simp add: build_nested_toc_def cleanup_empty_children_def)
  have "get_list h nested_toc = get_list h0 nested_toc"
    using ls by (simp add: get_list_def)
  then have s: "serialize_toc depth h = Some (map yaml_of F)"
    using toc dump_forest[OF cr fit] by (simp add: serialize_toc_def)
  from b s pre show ?thesis by blast
qed

lemma scan_flat_levels:
  "(\<forall>s \<in> set (sections (foldl (scan_element L False) (scan_init False) body)).
        1 \<le> sec_level s \<and> sec_level s \<le> L)
   \<and> current_section_elements (foldl (scan_element L False) (scan_init False) body) = None
   \<and> (snd (current_heading_info (foldl (scan_element L False) (scan_init False) body)) = 0
        \<or> (1 \<le> snd (current_heading_info (foldl (scan_element L False) (scan_init False) body))
           \<and> snd (current_heading_info (foldl (scan_element L False) (scan_init False) body)) \<le> L))"
proof (induction body rule: rev_induct)
  case Nil
  show ?case by (simp add: scan_init_def)
next
  case (snoc e body)
  let ?st = "foldl (scan_element L False) (scan_init False) body"
  show ?case
  proof (cases "heading_of L e")
    case None
    then show ?thesis using snoc by (simp add: scan_element_def)
  next
    case (Some lt)
    obtain l t where lt: "lt = (l, t)" by (cases lt)
    have "1 \<le> l \<and> l \<le> L"
      using Some lt by (auto simp: heading_of_def is_heading_style_def split: if_splits option.splits)
    then show ?thesis using snoc Some lt
      by (auto simp: scan_element_def close_section_def)
  qed
qed

lemma parse_flat_levels:
  assumes "parse_document_structure (Some body) L False = Some flat"
  shows "\<forall>s \<in> set flat. 1 \<le> sec_level s \<and> sec_level s \<le> L"
proof -
  let ?st = "foldl (scan_element L False) (scan_init False) body"
  have "flat = close_section False ?st"
    using assms by (auto simp: parse_document_structure_def Let_def split: list.splits)
  then show ?thesis using scan_flat_levels[of L body]
    by (auto simp: close_section_def split: if_splits)
qed

text \<open>
  Claim C2, as amended. For every document and every maximum level within the recursion
  budget, the generate pipeline writes, under the top-level key \<open>toc\<close>, a forest in which
  every node is a mapping with the key \<open>heading\<close>, the key \<open>level\<close> and, exactly when the
  node has at least one child, the key \<open>children\<close> with the list of its children; no
  node is a bare string. In pre-order the nodes carry the headings and the levels of the
  flat heading list.
\<close>

theorem serialized_nodes_keep_level:
  assumes "L \<le> int depth"
  shows "\<exists>flat F. parse_document_structure (Some body) L False = Some flat
           \<and> run_generate depth False L (Some body)
               = Inr (YMap [(''toc'', YList (map yaml_of F))])
           \<and> concat (map preorder F) = flat_headings flat"
proof -
  have "parse_document_structure (Some body) L False \<noteq> None"
    by (simp add: parse_document_structure_def Let_def)
  then obtain flat where flat: "parse_document_structure (Some body) L False = Some flat"
    by blast
  have "\<forall>s \<in> set flat. 0 \<le> sec_level s \<and> sec_level s \<le> int depth"
    using parse_flat_levels[OF flat] assms by fastforce
  from generate_outline[OF this] obtain h F where
    "build_nested_toc depth flat = Some h" "serialize_toc depth h = Some (map yaml_of F)"
    "concat (map preorder F) = flat_headings flat"
    by blast
  then show ?thesis using flat by (auto simp: run_generate_def)
qed

text \<open>
  Claim C3. For every flat list of sections whose levels are at least 0 and within the
  recursion budget (the levels 1 to 6 of the claim, and 0 for preamble entries, with a
  budget of 6 or more), building the nested outline succeeds, writing it succeeds, and
  flattening what was written with the loader's pre-order traversal gives the heading
  texts of the flat list, in order, without those of the entries of level 0.
\<close>

theorem outline_round_trip:
  assumes "\<forall>s \<in> set flat. 0 \<le> sec_level s \<and> sec_level s \<le> int depth"
  shows "\<exists>h ys. build_nested_toc depth flat = Some h \<and> serialize_toc depth h = Some ys
           \<and> extract_headings ys
              = map (\<lambda>s. YStr (sec_text s)) (filter (\<lambda>s. sec_level s \<noteq> 0) flat)"
proof -
  from generate_outline[OF assms] obtain h F where
    1: "build_nested_toc depth flat = Some h" "serialize_toc depth h = Some (map yaml_of F)"
    "concat (map preorder F) = flat_headings flat"
    by blast
  have "extract_headings (map yaml_of F)
          = map (\<lambda>s. YStr (sec_text s)) (filter (\<lambda>s. sec_level s \<noteq> 0) flat)"
    unfolding extract_headings_forest 1(3) by (simp add: flat_headings_def comp_def)
  with 1 show ?thesis by blast
qed

text \<open>
  The claim as stated denies the nodes a \<open>level\<close> field. The outline written for a
  document with the one heading \<open>A\<close> has it.
\<close>

theorem serialized_node_has_level:
  "run_generate 1000 False 6 (Some [para (str ''Heading 1'') (str ''A'') 0])
     = Inr (YMap [(''toc'', YList [YMap [(''heading'', YStr (str ''A'')), (''level'', YInt 1)]])])"
  by code_simp

theorem serialized_nodes_keep_level_witness:
  "(6::int) \<le> int 1000
   \<and> (\<exists>F. run_generate 1000 False 6
             (Some [para (str ''Heading 1'') (str ''Ch1'') 0, para (str ''Heading 2'') (str ''Sec1.1'') 1, other 2])
           = Inr (YMap [(''toc'', YList (map yaml_of F))]))"
proof -
  have "(6::int) \<le> int 1000" by simp
  from serialized_nodes_keep_level[OF this] this show ?thesis by blast
qed

theorem outline_round_trip_witness:
  "\<exists>h ys. build_nested_toc 6
             [flat_section (str ''Ch1'') 1, flat_section (str ''Sec1.1'') 2, flat_section (str ''Sec1.2'') 2,
              flat_section (str ''Ch2'') 1] = Some h
      \<and> serialize_toc 6 h = Some ys
      \<and> extract_headings ys = [YStr (str ''Ch1''), YStr (str ''Sec1.1''), YStr (str ''Sec1.2''), YStr (str ''Ch2'')]"
proof -
  let ?flat = "[flat_section (str ''Ch1'') 1, flat_section (str ''Sec1.1'') 2, flat_section (str ''Sec1.2'') 2,
                flat_section (str ''Ch2'') 1]"
  have "\<forall>s \<in> set ?flat. 0 \<le> sec_level s \<and> sec_level s \<le> int 6"
    by (simp add: flat_section_def)
  from outline_round_trip[OF this] show ?thesis
    by (simp add: flat_section_def)
qed

end
